theory Spec2Isabelle
  imports Complex_Main "HOL-Library.Word"
begin

unbundle bit_operations_syntax

section \<open>The audio decoding pipeline of geminiService\<close>

text \<open>
  The development embeds the two exported functions \<open>decodeBase64\<close> and
  \<open>decodeAudioData\<close> (lines 132 to 163 of the service module) together with the
  platform values they work on: JavaScript strings, typed arrays over an
  \<open>ArrayBuffer\<close>, and the \<open>AudioBuffer\<close> the audio context hands out.
\<close>

subsection \<open>Platform values\<close>

text \<open>
  A JavaScript string is a sequence of UTF-16 code units. A \<open>Uint8Array\<close> is a view:
  it names an \<open>ArrayBuffer\<close> (its bytes), the offset where the view starts and the
  number of bytes it spans; for a \<open>Uint8Array\<close> the element count \<open>length\<close> and
  \<open>byteLength\<close> are the same number. A JavaScript number is a real or \<open>NaN\<close>
  (the quotients computed here are exact: a 16-bit integer divided by \<open>2 ^ 15\<close> fits
  the 24-bit significand of a \<open>Float32Array\<close> element, so storing it does not round).
\<close>

type_synonym js_string = "nat list"
type_synonym byte = "8 word"
type_synonym int16 = "16 word"

datatype error = InvalidCharacterError | RangeError | NotSupportedError

datatype number = Num real | NaN

record Uint8Array =
  buffer :: "byte list"
  byteOffset :: nat
  byteLength :: nat

record AudioBuffer =
  numberOfChannels :: nat
  length_frames :: nat
  sampleRate :: nat
  getChannelData :: "number list list"

abbreviation js :: "string \<Rightarrow> js_string" where
  "js s \<equiv> map of_char s"

subsection \<open>The platform's \<open>atob\<close>\<close>

text \<open>
  \<open>atob\<close> is the browser's function, defined by the HTML Standard as the
  forgiving-base64 decode of its argument:
  \<^enum> remove all ASCII whitespace (tab, line feed, form feed, carriage return, space);
  \<^enum> if the length is then a multiple of four, remove one or two trailing \<open>=\<close>;
  \<^enum> fail if the length leaves remainder one when divided by four;
  \<^enum> fail if a code unit is not one of \<open>A-Z a-z 0-9 + /\<close>;
  \<^enum> read the characters as 6-bit values, emit three bytes for every 24 bits;
    of a remaining 12 bits drop the last four and emit one byte, of a remaining
    18 bits drop the last two and emit two bytes.
  A failure is the exception \<open>InvalidCharacterError\<close>. The result is a string whose
  code units are the bytes.
\<close>

definition ascii_whitespace :: "nat \<Rightarrow> bool" where
  "ascii_whitespace c = (c = 9 \<or> c = 10 \<or> c = 12 \<or> c = 13 \<or> c = 32)"

definition base64_value :: "nat \<Rightarrow> nat option" where
  "base64_value c =
     (if 65 \<le> c \<and> c \<le> 90 then Some (c - 65)
      else if 97 \<le> c \<and> c \<le> 122 then Some (c - 71)
      else if 48 \<le> c \<and> c \<le> 57 then Some (c + 4)
      else if c = 43 then Some 62
      else if c = 47 then Some 63
      else None)"

definition strip_padding :: "js_string \<Rightarrow> js_string" where
  "strip_padding s =
     (if length s mod 4 = 0 then
        (if 2 \<le> length s \<and> last s = 61 \<and> last (butlast s) = 61 then butlast (butlast s)
         else if 1 \<le> length s \<and> last s = 61 then butlast s
         else s)
      else s)"

fun decode_sextets :: "nat list \<Rightarrow> nat list" where
  "decode_sextets (a # b # c # d # rest) =
     (let n = ((a * 64 + b) * 64 + c) * 64 + d
      in n div 65536 # n div 256 mod 256 # n mod 256 # decode_sextets rest)"
| "decode_sextets [a, b, c] =
     (let n = ((a * 64 + b) * 64 + c) div 4 in [n div 256, n mod 256])"
| "decode_sextets [a, b] = [(a * 64 + b) div 16]"
| "decode_sextets [a] = []"
| "decode_sextets [] = []"

definition forgiving_base64_decode :: "js_string \<Rightarrow> js_string option" where
  "forgiving_base64_decode s =
     (let d = strip_padding (filter (\<lambda>c. \<not> ascii_whitespace c) s)
      in if length d mod 4 = 1 then None
         else (case those (map base64_value d) of
                 None \<Rightarrow> None
               | Some vs \<Rightarrow> Some (decode_sextets vs)))"

definition atob :: "js_string \<Rightarrow> error + js_string" where
  "atob s =
     (case forgiving_base64_decode s of
        None \<Rightarrow> Inl InvalidCharacterError
      | Some binaryString \<Rightarrow> Inr binaryString)"

subsection \<open>Typed arrays\<close>

text \<open>
  \<open>new Uint8Array(n)\<close> allocates a buffer of \<open>n\<close> zero bytes and views all of it.
  An element store converts the number to a byte modulo 256 and is ignored outside
  the view. \<open>ArrayBuffer.slice\<close> copies the bytes from \<open>first\<close> up to \<open>final\<close>,
  clamped to the buffer.
\<close>

definition new_Uint8Array :: "nat \<Rightarrow> Uint8Array" where
  "new_Uint8Array n = \<lparr>buffer = replicate n 0, byteOffset = 0, byteLength = n\<rparr>"

definition set_Uint8 :: "Uint8Array \<Rightarrow> nat \<Rightarrow> nat \<Rightarrow> Uint8Array" where
  "set_Uint8 a i v =
     (if i < byteLength a then a\<lparr>buffer := (buffer a)[byteOffset a + i := of_nat v]\<rparr>
      else a)"

definition slice :: "byte list \<Rightarrow> nat \<Rightarrow> nat \<Rightarrow> byte list" where
  "slice b first final = drop first (take final b)"

text \<open>
  \<open>new Int16Array(buffer, byteOffset, length)\<close> throws a \<open>RangeError\<close> when the
  offset is not a multiple of the element size 2, or when the \<open>length\<close> elements
  starting at the offset do not fit the buffer. Otherwise element \<open>k\<close> is the
  two bytes at \<open>byteOffset + 2 * k\<close> in the byte order of the platform,
  little-endian on the machines browsers run on, read as a two's-complement
  integer. The code only reads the array, so the model keeps its elements.
\<close>

definition le16 :: "byte \<Rightarrow> byte \<Rightarrow> int16" where
  "le16 lo hi = push_bit 8 (ucast hi) OR ucast lo"

definition new_Int16Array :: "byte list \<Rightarrow> nat \<Rightarrow> nat \<Rightarrow> error + int16 list" where
  "new_Int16Array buf off len =
     (if off mod 2 \<noteq> 0 then Inl RangeError
      else if length buf < off + 2 * len then Inl RangeError
      else Inr (map (\<lambda>k. le16 (buf ! (off + 2 * k)) (buf ! (off + 2 * k + 1))) [0..<len]))"

text \<open>
  Reading \<open>dataInt16[k]\<close> past the end gives \<open>undefined\<close>, and
  \<open>undefined / 32768.0\<close> is \<open>NaN\<close>. Storing into \<open>channelData[i]\<close> past the end
  of the \<open>Float32Array\<close> is ignored.
\<close>

definition sample_at :: "int16 list \<Rightarrow> nat \<Rightarrow> number" where
  "sample_at dataInt16 k =
     (if k < length dataInt16 then Num (real_of_int (sint (dataInt16 ! k)) / 32768.0)
      else NaN)"

definition set_Float32 :: "number list \<Rightarrow> nat \<Rightarrow> number \<Rightarrow> number list" where
  "set_Float32 channelData i v =
     (if i < length channelData then channelData[i := v] else channelData)"

subsection \<open>The audio context\<close>

text \<open>
  Modelled from the spec: \<open>createBuffer\<close> is a method of the \<open>AudioContext\<close> that
  the caller passes in; the context is the platform's and not part of the
  repository. The spec describes the call as allocation: one floating-point array
  of the requested length per channel, every sample \<open>0.0\<close> (silence), tagged with
  the sample rate and channel count it was asked for. The Web Audio API requires
  the length to be at least one frame: for a length of zero, which line 154 can
  compute from a non-empty input, the call throws \<open>NotSupportedError\<close>. The ranges
  of channel counts and sample rates that a context supports are its own and
  are not modelled: a request with a positive length is granted.
\<close>

definition silent_buffer :: "nat \<Rightarrow> nat \<Rightarrow> nat \<Rightarrow> AudioBuffer" where
  "silent_buffer numChannels len rate =
     \<lparr>numberOfChannels = numChannels, length_frames = len, sampleRate = rate,
      getChannelData = replicate numChannels (replicate len (Num 0))\<rparr>"

definition createBuffer :: "nat \<Rightarrow> nat \<Rightarrow> nat \<Rightarrow> error + AudioBuffer" where
  "createBuffer numChannels len rate =
     (if len = 0 then Inl NotSupportedError else Inr (silent_buffer numChannels len rate))"

subsection \<open>\<open>decodeBase64\<close>\<close>

text \<open>
  The loop of lines 136 to 138 stores \<open>binaryString.charCodeAt(i)\<close> at index \<open>i\<close>.
\<close>

function decodeBase64_loop :: "js_string \<Rightarrow> nat \<Rightarrow> Uint8Array \<Rightarrow> Uint8Array" where
  "decodeBase64_loop binaryString i bytes =
     (if i < length binaryString
      then decodeBase64_loop binaryString (i + 1) (set_Uint8 bytes i (binaryString ! i))
      else bytes)"
  by pat_completeness auto
termination
  by (relation "measure (\<lambda>(s, i, b). length s - i)") auto

declare decodeBase64_loop.simps [simp del]

text \<open>
  The argument is \<open>None\<close> for \<open>null\<close> or \<open>undefined\<close>; \<open>!base64\<close> holds for these and
  for the empty string.
\<close>

definition decodeBase64 :: "js_string option \<Rightarrow> error + Uint8Array" where
  "decodeBase64 base64 =
     (case base64 of
        None \<Rightarrow> Inr (new_Uint8Array 0)
      | Some s \<Rightarrow>
          if s = [] then Inr (new_Uint8Array 0)
          else (case atob s of
                  Inl e \<Rightarrow> Inl e
                | Inr binaryString \<Rightarrow>
                    Inr (decodeBase64_loop binaryString 0
                           (new_Uint8Array (length binaryString)))))"

subsection \<open>\<open>decodeAudioData\<close>\<close>

text \<open>
  The inner loop of lines 158 to 160 runs while \<open>i < frameCount\<close>, where
  \<open>frameCount\<close> is the unrounded quotient; the outer loop of lines 156 to 161
  takes each channel's array from the buffer and fills it in place.
\<close>

function fill_channel ::
  "int16 list \<Rightarrow> real \<Rightarrow> nat \<Rightarrow> nat \<Rightarrow> nat \<Rightarrow> number list \<Rightarrow> number list" where
  "fill_channel dataInt16 frameCount numChannels channel i channelData =
     (if real i < frameCount
      then fill_channel dataInt16 frameCount numChannels channel (i + 1)
             (set_Float32 channelData i (sample_at dataInt16 (i * numChannels + channel)))
      else channelData)"
  by pat_completeness auto
termination
  by (relation "measure (\<lambda>(d, fc, n, c, i, cd). nat \<lceil>fc\<rceil> - i)") (auto, linarith)

declare fill_channel.simps [simp del]

function fill_channels ::
  "int16 list \<Rightarrow> real \<Rightarrow> nat \<Rightarrow> nat \<Rightarrow> AudioBuffer \<Rightarrow> AudioBuffer" where
  "fill_channels dataInt16 frameCount numChannels channel buf =
     (if channel < numChannels
      then fill_channels dataInt16 frameCount numChannels (channel + 1)
             (buf\<lparr>getChannelData := (getChannelData buf)[channel :=
                fill_channel dataInt16 frameCount numChannels channel 0
                  (getChannelData buf ! channel)]\<rparr>)
      else buf)"
  by pat_completeness auto
termination
  by (relation "measure (\<lambda>(d, fc, n, c, b). n - c)") auto

declare fill_channels.simps [simp del]

text \<open>
  \<open>data\<close> is \<open>None\<close> for \<open>null\<close> or \<open>undefined\<close>. The sample rate and the channel
  count are natural numbers, as the spec types them. With \<open>numChannels = 0\<close> the
  quotient of line 153 is \<open>Infinity\<close> or \<open>NaN\<close>, which the conversion to the
  unsigned length argument of \<open>createBuffer\<close> turns into 0. An exception of
  \<open>createBuffer\<close> ends the call before the loops.
\<close>

definition decodeAudioData :: "Uint8Array option \<Rightarrow> nat \<Rightarrow> nat \<Rightarrow> error + AudioBuffer" where
  "decodeAudioData data rate numChannels =
     (case data of
        None \<Rightarrow> createBuffer numChannels 1 rate
      | Some d \<Rightarrow>
          if byteLength d = 0 then createBuffer numChannels 1 rate
          else
            (let bufferToUse =
                   (if byteLength d mod 2 = 0 then buffer d
                    else slice (buffer d) 0 (byteLength d - 1))
             in case new_Int16Array bufferToUse (byteOffset d) (byteLength d div 2) of
                  Inl e \<Rightarrow> Inl e
                | Inr dataInt16 \<Rightarrow>
                    if numChannels = 0 then createBuffer 0 0 rate
                    else
                      (let frameCount = real (length dataInt16) / real numChannels
                       in case createBuffer numChannels (nat \<lfloor>frameCount\<rfloor>) rate of
                            Inl e \<Rightarrow> Inl e
                          | Inr buf \<Rightarrow>
                              Inr (fill_channels dataInt16 frameCount numChannels 0 buf))))"

text \<open>
  The player (\<open>handlePlay\<close> of the audio control, lines 30 and 31) passes the bytes
  of \<open>decodeBase64\<close> to \<open>decodeAudioData\<close>; an exception of the first call ends the
  sequence. It uses the default sample rate 24000 and the default channel count 1.
\<close>

definition decodePipeline :: "js_string option \<Rightarrow> nat \<Rightarrow> nat \<Rightarrow> error + AudioBuffer" where
  "decodePipeline base64 rate numChannels =
     (case decodeBase64 base64 of
        Inl e \<Rightarrow> Inl e
      | Inr bytes \<Rightarrow> decodeAudioData (Some bytes) rate numChannels)"

definition handlePlay_decode :: "js_string option \<Rightarrow> error + AudioBuffer" where
  "handlePlay_decode base64Audio = decodePipeline base64Audio 24000 1"

subsection \<open>The same functions on an explicit store\<close>

text \<open>
  The arrays of the program are objects with identity: a \<open>Uint8Array\<close> names an
  \<open>ArrayBuffer\<close>, an \<open>AudioBuffer\<close> names one \<open>Float32Array\<close> per channel, and the
  loops store into them in place. Here the objects live in a store, an address is
  an index into it, and an allocation appends a new object. The functions take
  the store and return it with their result; what they read of it and what they
  change in it is then visible.
\<close>

datatype object = ArrayBuffer "byte list" | Float32Array "number list"

type_synonym store = "object list"

record Uint8Array_ref =
  buffer_ref :: nat
  byteOffset_ref :: nat
  byteLength_ref :: nat

record AudioBuffer_ref =
  numberOfChannels_ref :: nat
  length_ref :: nat
  sampleRate_ref :: nat
  channel_refs :: "nat list"

definition bytes_at :: "store \<Rightarrow> nat \<Rightarrow> byte list" where
  "bytes_at st a =
     (if a < length st then (case st ! a of ArrayBuffer b \<Rightarrow> b | Float32Array f \<Rightarrow> []) else [])"

definition floats_at :: "store \<Rightarrow> nat \<Rightarrow> number list" where
  "floats_at st a =
     (if a < length st then (case st ! a of ArrayBuffer b \<Rightarrow> [] | Float32Array f \<Rightarrow> f) else [])"

definition new_Uint8Array_st :: "nat \<Rightarrow> store \<Rightarrow> Uint8Array_ref \<times> store" where
  "new_Uint8Array_st n st =
     (\<lparr>buffer_ref = length st, byteOffset_ref = 0, byteLength_ref = n\<rparr>,
      st @ [ArrayBuffer (replicate n 0)])"

definition set_Uint8_st :: "Uint8Array_ref \<Rightarrow> nat \<Rightarrow> nat \<Rightarrow> store \<Rightarrow> store" where
  "set_Uint8_st a i v st =
     (if i < byteLength_ref a
      then st[buffer_ref a :=
             ArrayBuffer ((bytes_at st (buffer_ref a))[byteOffset_ref a + i := of_nat v])]
      else st)"

function decodeBase64_loop_st ::
  "js_string \<Rightarrow> nat \<Rightarrow> Uint8Array_ref \<Rightarrow> store \<Rightarrow> store" where
  "decodeBase64_loop_st binaryString i bytes st =
     (if i < length binaryString
      then decodeBase64_loop_st binaryString (i + 1) bytes
             (set_Uint8_st bytes i (binaryString ! i) st)
      else st)"
  by pat_completeness auto
termination
  by (relation "measure (\<lambda>(s, i, b, st). length s - i)") auto

declare decodeBase64_loop_st.simps [simp del]

definition decodeBase64_st ::
  "js_string option \<Rightarrow> store \<Rightarrow> (error + Uint8Array_ref) \<times> store" where
  "decodeBase64_st base64 st =
     (case base64 of
        None \<Rightarrow> (case new_Uint8Array_st 0 st of (bytes, st') \<Rightarrow> (Inr bytes, st'))
      | Some s \<Rightarrow>
          if s = [] then (case new_Uint8Array_st 0 st of (bytes, st') \<Rightarrow> (Inr bytes, st'))
          else (case atob s of
                  Inl e \<Rightarrow> (Inl e, st)
                | Inr binaryString \<Rightarrow>
                    (case new_Uint8Array_st (length binaryString) st of
                       (bytes, st') \<Rightarrow>
                         (Inr bytes, decodeBase64_loop_st binaryString 0 bytes st'))))"

definition createBuffer_st ::
  "nat \<Rightarrow> nat \<Rightarrow> nat \<Rightarrow> store \<Rightarrow> (error + AudioBuffer_ref) \<times> store" where
  "createBuffer_st numChannels len rate st =
     (if len = 0 then (Inl NotSupportedError, st)
      else
        (Inr \<lparr>numberOfChannels_ref = numChannels, length_ref = len, sampleRate_ref = rate,
              channel_refs = [length st..<length st + numChannels]\<rparr>,
         st @ replicate numChannels (Float32Array (replicate len (Num 0)))))"

definition set_Float32_st :: "nat \<Rightarrow> nat \<Rightarrow> number \<Rightarrow> store \<Rightarrow> store" where
  "set_Float32_st channelData i v st =
     st[channelData := Float32Array (set_Float32 (floats_at st channelData) i v)]"

function fill_channel_st ::
  "int16 list \<Rightarrow> real \<Rightarrow> nat \<Rightarrow> nat \<Rightarrow> nat \<Rightarrow> nat \<Rightarrow> store \<Rightarrow> store" where
  "fill_channel_st dataInt16 frameCount numChannels channel i channelData st =
     (if real i < frameCount
      then fill_channel_st dataInt16 frameCount numChannels channel (i + 1) channelData
             (set_Float32_st channelData i (sample_at dataInt16 (i * numChannels + channel)) st)
      else st)"
  by pat_completeness auto
termination
  by (relation "measure (\<lambda>(d, fc, n, c, i, cd, st). nat \<lceil>fc\<rceil> - i)") (auto, linarith)

declare fill_channel_st.simps [simp del]

function fill_channels_st ::
  "int16 list \<Rightarrow> real \<Rightarrow> nat \<Rightarrow> nat \<Rightarrow> AudioBuffer_ref \<Rightarrow> store \<Rightarrow> store" where
  "fill_channels_st dataInt16 frameCount numChannels channel buf st =
     (if channel < numChannels
      then fill_channels_st dataInt16 frameCount numChannels (channel + 1) buf
             (fill_channel_st dataInt16 frameCount numChannels channel 0
                (channel_refs buf ! channel) st)
      else st)"
  by pat_completeness auto
termination
  by (relation "measure (\<lambda>(d, fc, n, c, b, st). n - c)") auto

declare fill_channels_st.simps [simp del]

text \<open>
  Line 151 copies the first bytes into a new \<open>ArrayBuffer\<close> when the length is odd
  and uses the array's own buffer otherwise. The \<open>Int16Array\<close> is a view of that
  buffer; nothing stores into the buffer while the view is in use, so its
  elements are read once.
\<close>

definition decodeAudioData_st ::
  "Uint8Array_ref option \<Rightarrow> nat \<Rightarrow> nat \<Rightarrow> store \<Rightarrow> (error + AudioBuffer_ref) \<times> store" where
  "decodeAudioData_st data rate numChannels st =
     (case data of
        None \<Rightarrow> createBuffer_st numChannels 1 rate st
      | Some d \<Rightarrow>
          if byteLength_ref d = 0
          then createBuffer_st numChannels 1 rate st
          else
            (case (if byteLength_ref d mod 2 = 0 then (bytes_at st (buffer_ref d), st)
                   else (slice (bytes_at st (buffer_ref d)) 0 (byteLength_ref d - 1),
                         st @ [ArrayBuffer
                                 (slice (bytes_at st (buffer_ref d)) 0 (byteLength_ref d - 1))]))
             of (bufferToUse, st1) \<Rightarrow>
               (case new_Int16Array bufferToUse (byteOffset_ref d) (byteLength_ref d div 2) of
                  Inl e \<Rightarrow> (Inl e, st1)
                | Inr dataInt16 \<Rightarrow>
                    if numChannels = 0 then createBuffer_st 0 0 rate st1
                    else
                      (let frameCount = real (length dataInt16) / real numChannels
                       in case createBuffer_st numChannels (nat \<lfloor>frameCount\<rfloor>) rate st1 of
                            (Inl e, st2) \<Rightarrow> (Inl e, st2)
                          | (Inr buf, st2) \<Rightarrow>
                              (Inr buf,
                               fill_channels_st dataInt16 frameCount numChannels 0 buf st2)))))"

definition decodePipeline_st ::
  "js_string option \<Rightarrow> nat \<Rightarrow> nat \<Rightarrow> store \<Rightarrow> (error + AudioBuffer_ref) \<times> store" where
  "decodePipeline_st base64 rate numChannels st =
     (case decodeBase64_st base64 st of
        (Inl e, st') \<Rightarrow> (Inl e, st')
      | (Inr bytes, st') \<Rightarrow> decodeAudioData_st (Some bytes) rate numChannels st')"

text \<open>The arrays a reference stands for in a store.\<close>

definition Uint8Array_in :: "store \<Rightarrow> Uint8Array_ref \<Rightarrow> Uint8Array" where
  "Uint8Array_in st r =
     \<lparr>buffer = bytes_at st (buffer_ref r), byteOffset = byteOffset_ref r,
      byteLength = byteLength_ref r\<rparr>"

definition AudioBuffer_in :: "store \<Rightarrow> AudioBuffer_ref \<Rightarrow> AudioBuffer" where
  "AudioBuffer_in st r =
     \<lparr>numberOfChannels = numberOfChannels_ref r, length_frames = length_ref r,
      sampleRate = sampleRate_ref r, getChannelData = map (floats_at st) (channel_refs r)\<rparr>"

definition result_in :: "(error + AudioBuffer_ref) \<times> store \<Rightarrow> error + AudioBuffer" where
  "result_in r = (case r of (Inl e, st) \<Rightarrow> Inl e | (Inr buf, st) \<Rightarrow> Inr (AudioBuffer_in st buf))"

subsection \<open>Reference notions of the specification\<close>

text \<open>
  The array that \<open>new Uint8Array(n)\<close> followed by \<open>n\<close> element stores leaves: the
  bytes \<open>bs\<close> in a buffer of their own, viewed from offset 0. Every array returned
  by \<open>decodeBase64\<close> has this form.
\<close>

definition Uint8Array_of :: "byte list \<Rightarrow> Uint8Array" where
  "Uint8Array_of bs = \<lparr>buffer = bs, byteOffset = 0, byteLength = length bs\<rparr>"

text \<open>
  The specification's PCM sample buffer: consecutive bytes paired into
  little-endian 16-bit values, a trailing unpaired byte dropped.
\<close>

fun pcm_samples :: "byte list \<Rightarrow> int16 list" where
  "pcm_samples (lo # hi # rest) = le16 lo hi # pcm_samples rest"
| "pcm_samples [b] = []"
| "pcm_samples [] = []"

text \<open>
  The specification's decoded buffer (steps 3 and 4 of the PCM interpreter): the
  frame count is the floored quotient of the sample count by the channel count,
  and sample \<open>i\<close> of channel \<open>c\<close> is the interleaved sample \<open>i * numChannels + c\<close>
  divided by \<open>32768.0\<close>.
\<close>

definition deinterleave :: "int16 list \<Rightarrow> nat \<Rightarrow> nat \<Rightarrow> AudioBuffer" where
  "deinterleave samples numChannels rate =
     \<lparr>numberOfChannels = numChannels,
      length_frames = length samples div numChannels,
      sampleRate = rate,
      getChannelData =
        map (\<lambda>c. map (\<lambda>i. Num (real_of_int (sint (samples ! (i * numChannels + c))) / 32768))
                    [0..<length samples div numChannels])
            [0..<numChannels]\<rparr>"

text \<open>
  The sender's half of the round-trip property, which the repository does not
  contain: a sequence of signed 16-bit integers written as little-endian bytes,
  and the standard base64 encoding of bytes (three bytes to four characters of
  \<open>A-Z a-z 0-9 + /\<close>, the last group padded with \<open>=\<close>).
\<close>

definition int16_bytes :: "int16 \<Rightarrow> byte list" where
  "int16_bytes w = [ucast w, ucast (drop_bit 8 w)]"

definition le_bytes :: "int16 list \<Rightarrow> byte list" where
  "le_bytes V = concat (map int16_bytes V)"

definition base64_char :: "nat \<Rightarrow> nat" where
  "base64_char v =
     (if v < 26 then 65 + v
      else if v < 52 then 71 + v
      else if v < 62 then v - 4
      else if v = 62 then 43
      else 47)"

fun encode_sextets :: "nat list \<Rightarrow> nat list" where
  "encode_sextets (a # b # c # rest) =
     (let n = (a * 256 + b) * 256 + c
      in n div 262144 # n div 4096 mod 64 # n div 64 mod 64 # n mod 64 # encode_sextets rest)"
| "encode_sextets [a, b] =
     (let n = (a * 256 + b) * 4 in [n div 4096, n div 64 mod 64, n mod 64])"
| "encode_sextets [a] = (let n = a * 16 in [n div 64, n mod 64])"
| "encode_sextets [] = []"

definition base64_encode :: "byte list \<Rightarrow> js_string" where
  "base64_encode bs =
     map base64_char (encode_sextets (map unat bs)) @
     replicate ((3 - length bs mod 3) mod 3) 61"

section \<open>Properties of the loops and views\<close>

lemma decodeBase64_loop_buffer:
  "length b = length s \<Longrightarrow> i \<le> length s \<Longrightarrow>
   decodeBase64_loop s i \<lparr>buffer = b, byteOffset = 0, byteLength = length s\<rparr> =
   \<lparr>buffer = take i b @ map of_nat (drop i s), byteOffset = 0, byteLength = length s\<rparr>"
proof (induction "length s - i" arbitrary: i b)
  case 0
  then show ?case by (subst decodeBase64_loop.simps) simp
next
  case (Suc k)
  then have lt: "i < length s" by simp
  have "take (Suc i) (b[i := of_nat (s ! i)]) = take i b @ [of_nat (s ! i)]"
    using lt Suc.prems by (simp add: take_Suc_conv_app_nth)
  moreover have "drop i s = s ! i # drop (Suc i) s"
    using lt by (simp add: Cons_nth_drop_Suc)
  ultimately show ?case
    using Suc.hyps(1) [of "Suc i" "b[i := of_nat (s ! i)]"] Suc.hyps(2) Suc.prems lt
    by (subst decodeBase64_loop.simps) (simp add: set_Uint8_def)
qed

lemma decodeBase64_loop_new:
  "decodeBase64_loop s 0 (new_Uint8Array (length s)) = Uint8Array_of (map of_nat s)"
  using decodeBase64_loop_buffer [of "replicate (length s) 0" s 0]
  by (simp add: new_Uint8Array_def Uint8Array_of_def)

lemma pcm_samples_length: "length (pcm_samples bs) = length bs div 2"
  by (induction bs rule: pcm_samples.induct) simp_all

lemma pcm_samples_nth:
  "k < length bs div 2 \<Longrightarrow> pcm_samples bs ! k = le16 (bs ! (2 * k)) (bs ! (2 * k + 1))"
proof (induction bs arbitrary: k rule: pcm_samples.induct)
  case (1 lo hi rest)
  then show ?case by (cases k) simp_all
qed simp_all

lemma pcm_samples_map:
  "map (\<lambda>k. le16 (bs ! (2 * k)) (bs ! (2 * k + 1))) [0..<length bs div 2] = pcm_samples bs"
  by (rule nth_equalityI) (simp_all add: pcm_samples_length pcm_samples_nth)

lemma pcm_samples_butlast:
  "odd (length bs) \<Longrightarrow> pcm_samples (butlast bs) = pcm_samples bs"
  by (induction bs rule: pcm_samples.induct) auto

lemma pcm_samples_snoc:
  "even (length bs) \<Longrightarrow> pcm_samples (bs @ [x]) = pcm_samples bs"
  by (induction bs rule: pcm_samples.induct) simp_all

lemma new_Int16Array_fresh:
  "new_Int16Array (if length bs mod 2 = 0 then bs else slice bs 0 (length bs - 1)) 0 (length bs div 2)
   = Inr (pcm_samples bs)"
proof (cases "even (length bs)")
  case True
  then show ?thesis
    using pcm_samples_map [of bs] by (simp add: new_Int16Array_def even_iff_mod_2_eq_zero)
next
  case False
  then have odd: "odd (length bs)" .
  have sl: "slice bs 0 (length bs - 1) = butlast bs"
    by (simp add: slice_def butlast_conv_take)
  have len: "length (butlast bs) div 2 = length bs div 2"
    using odd unfolding length_butlast by presburger
  have fit: "\<not> length (butlast bs) < 0 + 2 * (length bs div 2)"
    using odd unfolding length_butlast by presburger
  have "new_Int16Array (butlast bs) 0 (length bs div 2) = Inr (pcm_samples (butlast bs))"
    unfolding new_Int16Array_def using fit pcm_samples_map [of "butlast bs"] len
    by (simp del: length_butlast)
  then show ?thesis
    using odd by (simp only: sl pcm_samples_butlast odd_iff_mod_2_eq_one if_False one_neq_zero)
qed

lemma fill_channel_length:
  "length (fill_channel d fc nc c i cd) = length cd"
proof (induction d fc nc c i cd rule: fill_channel.induct)
  case (1 d fc nc c i cd)
  show ?case
  proof (cases "real i < fc")
    case True
    with 1 show ?thesis
      by (subst fill_channel.simps) (simp add: set_Float32_def)
  next
    case False
    then show ?thesis by (subst fill_channel.simps) simp
  qed
qed

lemma fill_channel_nth:
  "j < length cd \<Longrightarrow>
   fill_channel d fc nc c i cd ! j =
     (if i \<le> j \<and> real j < fc then sample_at d (j * nc + c) else cd ! j)"
proof (induction d fc nc c i cd rule: fill_channel.induct)
  case (1 d fc nc c i cd)
  show ?case
  proof (cases "real i < fc")
    case True
    let ?cd = "set_Float32 cd i (sample_at d (i * nc + c))"
    have "j < length ?cd" using 1(2) by (simp add: set_Float32_def)
    from 1(1) [OF True this]
    have "fill_channel d fc nc c (i + 1) ?cd ! j =
          (if i + 1 \<le> j \<and> real j < fc then sample_at d (j * nc + c) else ?cd ! j)" .
    moreover have "fill_channel d fc nc c i cd = fill_channel d fc nc c (i + 1) ?cd"
      using True by (subst fill_channel.simps) simp
    ultimately show ?thesis
      using True 1(2) by (cases "j = i") (auto simp: set_Float32_def nth_list_update)
  next
    case False
    then have "fill_channel d fc nc c i cd = cd"
      by (subst fill_channel.simps) simp
    moreover have "\<not> (i \<le> j \<and> real j < fc)" using False by auto
    ultimately show ?thesis by (simp only: if_False)
  qed
qed

lemma fill_channels_eq:
  "fill_channels d fc nc k buf =
     buf\<lparr>getChannelData :=
       map (\<lambda>c. if k \<le> c \<and> c < nc
                 then fill_channel d fc nc c 0 (getChannelData buf ! c)
                 else getChannelData buf ! c)
           [0..<length (getChannelData buf)]\<rparr>"
proof (induction d fc nc k buf rule: fill_channels.induct)
  case (1 d fc nc k buf)
  show ?case
  proof (cases "k < nc")
    case True
    let ?b = "buf\<lparr>getChannelData := (getChannelData buf)[k :=
                fill_channel d fc nc k 0 (getChannelData buf ! k)]\<rparr>"
    have step: "fill_channels d fc nc k buf = fill_channels d fc nc (k + 1) ?b"
      using True by (subst fill_channels.simps) simp
    have "map (\<lambda>c. if k + 1 \<le> c \<and> c < nc
                 then fill_channel d fc nc c 0 (getChannelData ?b ! c)
                 else getChannelData ?b ! c) [0..<length (getChannelData ?b)]
        = map (\<lambda>c. if k \<le> c \<and> c < nc
                 then fill_channel d fc nc c 0 (getChannelData buf ! c)
                 else getChannelData buf ! c) [0..<length (getChannelData buf)]"
    proof (rule map_cong [OF _ ], simp)
      fix c assume "c \<in> set [0..<length (getChannelData buf)]"
      then show "(if k + 1 \<le> c \<and> c < nc
                 then fill_channel d fc nc c 0 (getChannelData ?b ! c)
                 else getChannelData ?b ! c) =
            (if k \<le> c \<and> c < nc
                 then fill_channel d fc nc c 0 (getChannelData buf ! c)
                 else getChannelData buf ! c)"
        using True by (cases "c = k") (auto simp: nth_list_update)
    qed
    then show ?thesis
      using 1 [OF True] step by simp
  next
    case False
    then have "fill_channels d fc nc k buf = buf"
      by (subst fill_channels.simps) simp
    moreover have "map (\<lambda>c. if k \<le> c \<and> c < nc
                 then fill_channel d fc nc c 0 (getChannelData buf ! c)
                 else getChannelData buf ! c) [0..<length (getChannelData buf)]
        = getChannelData buf"
      using False by (intro nth_equalityI) auto
    ultimately show ?thesis by simp
  qed
qed

lemma frame_index_in_range:
  assumes "i < n div nc" "c < nc"
  shows "i * nc + c < (n::nat)"
proof -
  have "i * nc + c < (i + 1) * nc" using assms(2) by simp
  also have "\<dots> \<le> (n div nc) * nc" using assms(1) by (simp add: mult_le_mono1 del: mult_Suc)
  also have "\<dots> \<le> n" by simp
  finally show ?thesis .
qed

lemma below_quotient:
  assumes "i < n div nc" "0 < nc"
  shows "real i < real n / real nc"
proof -
  have "i * nc < n" using frame_index_in_range [OF assms(1), of 0] assms(2) by simp
  then have "real i * real nc < real n"
    by (metis of_nat_less_iff of_nat_mult)
  then show ?thesis using assms(2) by (simp add: pos_less_divide_eq)
qed

lemma floor_quotient: "nat \<lfloor>real n / real nc\<rfloor> = n div nc"
  by (simp add: floor_divide_of_nat_eq)

lemma fill_channel_silence:
  assumes "c < nc"
  shows "fill_channel d (real (length d) / real nc) nc c 0 (replicate (length d div nc) (Num 0)) =
         map (\<lambda>i. Num (real_of_int (sint (d ! (i * nc + c))) / 32768)) [0..<length d div nc]"
proof (rule nth_equalityI)
  show "length (fill_channel d (real (length d) / real nc) nc c 0 (replicate (length d div nc) (Num 0))) =
        length (map (\<lambda>i. Num (real_of_int (sint (d ! (i * nc + c))) / 32768)) [0..<length d div nc])"
    by (simp add: fill_channel_length)
next
  fix j
  assume "j < length (fill_channel d (real (length d) / real nc) nc c 0 (replicate (length d div nc) (Num 0)))"
  then have j: "j < length d div nc" by (simp add: fill_channel_length)
  have nc: "0 < nc" using assms by simp
  have "real j < real (length d) / real nc" using below_quotient [OF j nc] .
  moreover have "j * nc + c < length d" using frame_index_in_range [OF j assms] .
  ultimately show "fill_channel d (real (length d) / real nc) nc c 0 (replicate (length d div nc) (Num 0)) ! j =
        map (\<lambda>i. Num (real_of_int (sint (d ! (i * nc + c))) / 32768)) [0..<length d div nc] ! j"
    using j by (simp add: fill_channel_nth sample_at_def)
qed

lemma createBuffer_zero: "createBuffer nc 0 sr = Inl NotSupportedError"
  by (simp add: createBuffer_def)

lemma fill_channels_silence:
  assumes "0 < nc"
  shows "fill_channels d (real (length d) / real nc) nc 0
           (silent_buffer nc (length d div nc) sr) =
         deinterleave d nc sr"
proof -
  have "map (\<lambda>c. if 0 \<le> c \<and> c < nc
                 then fill_channel d (real (length d) / real nc) nc c 0
                        (replicate nc (replicate (length d div nc) (Num 0)) ! c)
                 else replicate nc (replicate (length d div nc) (Num 0)) ! c) [0..<nc]
      = map (\<lambda>c. map (\<lambda>i. Num (real_of_int (sint (d ! (i * nc + c))) / 32768))
                        [0..<length d div nc]) [0..<nc]"
    by (rule map_cong) (simp_all add: fill_channel_silence)
  then show ?thesis
    by (simp add: fill_channels_eq silent_buffer_def deinterleave_def)
qed

text \<open>
  The result on any view: the exception of the \<open>Int16Array\<close> constructor if it
  throws, the exception of \<open>createBuffer\<close> if the samples do not fill one frame,
  the de-interleaved samples otherwise.
\<close>

lemma decodeAudioData_view:
  assumes "byteLength d \<noteq> 0" "0 < nc"
  shows "decodeAudioData (Some d) sr nc =
         (case new_Int16Array
                 (if byteLength d mod 2 = 0 then buffer d
                  else slice (buffer d) 0 (byteLength d - 1))
                 (byteOffset d) (byteLength d div 2) of
            Inl e \<Rightarrow> Inl e
          | Inr dataInt16 \<Rightarrow>
              if length dataInt16 div nc = 0 then Inl NotSupportedError
              else Inr (deinterleave dataInt16 nc sr))"
proof -
  define v where
    "v = new_Int16Array
           (if byteLength d mod 2 = 0 then buffer d
            else slice (buffer d) 0 (byteLength d - 1))
           (byteOffset d) (byteLength d div 2)"
  have run: "decodeAudioData (Some d) sr nc =
        (case v of
           Inl e \<Rightarrow> Inl e
         | Inr dataInt16 \<Rightarrow>
             (case createBuffer nc (length dataInt16 div nc) sr of
                Inl e \<Rightarrow> Inl e
              | Inr buf \<Rightarrow>
                  Inr (fill_channels dataInt16 (real (length dataInt16) / real nc) nc 0 buf)))"
    using assms
    by (simp only: decodeAudioData_def option.case if_False Let_def v_def [symmetric]
          floor_quotient less_irrefl [of 0] neq0_conv [symmetric] refl simp_thms)
  show ?thesis
  proof (cases v)
    case (Inl e)
    then show ?thesis unfolding run v_def [symmetric] by simp
  next
    case (Inr d16)
    show ?thesis
    proof (cases "length d16 div nc = 0")
      case True
      then have "createBuffer nc (length d16 div nc) sr = Inl NotSupportedError"
        by (simp only: createBuffer_zero)
      then show ?thesis unfolding run v_def [symmetric] Inr using True by simp
    next
      case False
      then have "createBuffer nc (length d16 div nc) sr =
                 Inr (silent_buffer nc (length d16 div nc) sr)"
        by (simp add: createBuffer_def)
      then show ?thesis
        unfolding run v_def [symmetric] Inr
        using False assms(2) by (simp add: fill_channels_silence)
    qed
  qed
qed

text \<open>
  An array that views its buffer from another offset is decoded when both the
  offset and the length are even. With an odd offset the \<open>Int16Array\<close> constructor
  throws; with an odd length line 151 slices the buffer from its start, not from
  the view's offset, and the constructor throws as well. The arrays that
  \<open>decodeBase64\<close> returns start at offset 0 of a buffer of their own.
\<close>

lemma decodeAudioData_offset_view:
  "decodeAudioData (Some \<lparr>buffer = [9, 1, 0, 2, 0], byteOffset = 1, byteLength = 4\<rparr>) sr nc =
     Inl RangeError"
  "decodeAudioData (Some \<lparr>buffer = [9, 9, 1, 0, 7], byteOffset = 2, byteLength = 3\<rparr>) sr nc =
     Inl RangeError"
  "decodeAudioData (Some \<lparr>buffer = [9, 9, 1, 0, 2, 0], byteOffset = 2, byteLength = 4\<rparr>) sr 1 =
     Inr \<lparr>numberOfChannels = 1, length_frames = 2, sampleRate = sr,
          getChannelData = [[Num (1 / 32768), Num (2 / 32768)]]\<rparr>"
proof -
  show "decodeAudioData (Some \<lparr>buffer = [9, 1, 0, 2, 0], byteOffset = 1, byteLength = 4\<rparr>) sr nc =
     Inl RangeError"
    by (simp add: decodeAudioData_def new_Int16Array_def)
  show "decodeAudioData (Some \<lparr>buffer = [9, 9, 1, 0, 7], byteOffset = 2, byteLength = 3\<rparr>) sr nc =
     Inl RangeError"
    by (simp add: decodeAudioData_def new_Int16Array_def slice_def)
  have "[0..<2] = [0, Suc 0]" by (simp add: upt_rec)
  then have "new_Int16Array [9, 9, 1, 0, 2, 0] 2 2 = Inr [1, 2]"
    by (simp add: new_Int16Array_def le16_def)
  then show "decodeAudioData (Some \<lparr>buffer = [9, 9, 1, 0, 2, 0], byteOffset = 2, byteLength = 4\<rparr>) sr 1 =
     Inr \<lparr>numberOfChannels = 1, length_frames = 2, sampleRate = sr,
          getChannelData = [[Num (1 / 32768), Num (2 / 32768)]]\<rparr>"
    using decodeAudioData_view
            [of "\<lparr>buffer = [9, 9, 1, 0, 2, 0], byteOffset = 2, byteLength = 4\<rparr>" 1 sr]
          \<open>[0..<2] = [0, Suc 0]\<close>
    by (simp add: deinterleave_def)
qed

lemma decodeAudioData_fresh_view:
  assumes "bs \<noteq> []" "0 < nc"
  shows "decodeAudioData (Some (Uint8Array_of bs)) sr nc =
         (if length bs div 2 < nc then Inl NotSupportedError
          else Inr (deinterleave (pcm_samples bs) nc sr))"
proof -
  have "new_Int16Array
          (if byteLength (Uint8Array_of bs) mod 2 = 0 then buffer (Uint8Array_of bs)
           else slice (buffer (Uint8Array_of bs)) 0 (byteLength (Uint8Array_of bs) - 1))
          (byteOffset (Uint8Array_of bs)) (byteLength (Uint8Array_of bs) div 2)
        = Inr (pcm_samples bs)"
    unfolding Uint8Array_of_def Uint8Array.simps by (rule new_Int16Array_fresh)
  moreover have "byteLength (Uint8Array_of bs) \<noteq> 0"
    using assms(1) by (simp add: Uint8Array_of_def)
  moreover have "length (pcm_samples bs) div nc = 0 \<longleftrightarrow> length bs div 2 < nc"
    using assms(2) by (simp add: pcm_samples_length div_eq_0_iff)
  ultimately show ?thesis
    using decodeAudioData_view [of "Uint8Array_of bs" nc sr] assms(2) by simp
qed

lemma decodeAudioData_fresh:
  assumes "0 < nc" "nc \<le> length bs div 2"
  shows "decodeAudioData (Some (Uint8Array_of bs)) sr nc =
         Inr (deinterleave (pcm_samples bs) nc sr)"
proof -
  have "bs \<noteq> []" using assms by auto
  from decodeAudioData_fresh_view [OF this assms(1), of sr] assms(2) show ?thesis by simp
qed

lemma decodeAudioData_empty:
  "decodeAudioData (Some (Uint8Array_of [])) sr nc = Inr (silent_buffer nc 1 sr)"
  by (simp add: decodeAudioData_def Uint8Array_of_def createBuffer_def)

lemma decodeAudioData_no_channels:
  "bs \<noteq> [] \<Longrightarrow> decodeAudioData (Some (Uint8Array_of bs)) sr 0 = Inl NotSupportedError"
proof -
  assume ne: "bs \<noteq> []"
  have "new_Int16Array
          (if length bs mod 2 = 0 then bs else slice bs 0 (length bs - 1)) 0 (length bs div 2)
        = Inr (pcm_samples bs)"
    by (rule new_Int16Array_fresh)
  then show ?thesis
    using ne
    by (cases "length bs mod 2 = 0")
       (simp_all add: decodeAudioData_def Uint8Array_of_def createBuffer_def del: One_nat_def)
qed

text \<open>
  A non-empty input with fewer samples than channels: line 154 asks for a buffer
  of length 0, and \<open>createBuffer\<close> throws.
\<close>

lemma decodeAudioData_short:
  assumes "bs \<noteq> []" "length bs div 2 < nc"
  shows "decodeAudioData (Some (Uint8Array_of bs)) sr nc = Inl NotSupportedError"
proof -
  have "0 < nc" using assms(2) by simp
  from decodeAudioData_fresh_view [OF assms(1) this, of sr] assms(2) show ?thesis by simp
qed

text \<open>The bytes that \<open>decodeBase64\<close> returns, and the pipeline on them.\<close>

lemma decodeBase64_atob:
  "s \<noteq> [] \<Longrightarrow>
   decodeBase64 (Some s) =
     (case atob s of Inl e \<Rightarrow> Inl e | Inr t \<Rightarrow> Inr (Uint8Array_of (map of_nat t)))"
  by (simp add: decodeBase64_def decodeBase64_loop_new split: sum.splits)

lemma decodeBase64_falsy:
  "decodeBase64 None = Inr (Uint8Array_of [])" "decodeBase64 (Some []) = Inr (Uint8Array_of [])"
  by (simp_all add: decodeBase64_def new_Uint8Array_def Uint8Array_of_def)

lemma decodeAudioData_null:
  "decodeAudioData None sr nc = Inr (silent_buffer nc 1 sr)"
  by (simp add: decodeAudioData_def createBuffer_def)

lemma deinterleave_channel:
  assumes "c < nc" "i < length samples div nc"
  shows "getChannelData (deinterleave samples nc sr) ! c ! i =
           Num (real_of_int (sint (samples ! (i * nc + c))) / 32768)"
  using assms by (simp add: deinterleave_def)

lemma deinterleave_fields:
  "numberOfChannels (deinterleave samples nc sr) = nc"
  "length_frames (deinterleave samples nc sr) = length samples div nc"
  "sampleRate (deinterleave samples nc sr) = sr"
  "length (getChannelData (deinterleave samples nc sr)) = nc"
  by (simp_all add: deinterleave_def)

lemma deinterleave_channel_length:
  "c < nc \<Longrightarrow> length (getChannelData (deinterleave samples nc sr) ! c) = length samples div nc"
  by (simp add: deinterleave_def)

lemma le16_word_cat: "le16 lo hi = word_cat hi lo"
  by (simp add: le16_def word_cat_eq_push_bit_or)

lemma uint_byte_bounds: "0 \<le> uint (b :: byte) \<and> uint b \<le> 255"
  using uint_bounded [of b] by simp

lemma uint_le16: "uint (le16 lo hi) = uint lo + 256 * uint hi"
proof -
  have ulo: "uint (ucast lo :: int16) = uint lo"
    by (simp add: uint_up_ucast is_up)
  have uhi: "uint (ucast hi :: int16) = uint hi"
    by (simp add: uint_up_ucast is_up)
  have "le16 lo hi = (ucast hi :: int16) * 256 + ucast lo"
    by (simp add: le16_word_cat word_cat_eq push_bit_eq_mult)
  then have "uint (le16 lo hi) = (uint hi * 256 mod 65536 + uint lo) mod 65536"
    by (simp add: uint_word_ariths ulo uhi mod_add_left_eq)
  moreover have "0 \<le> uint hi * 256" "uint hi * 256 < 65536"
    using uint_byte_bounds [of hi] by simp_all
  moreover have "0 \<le> uint hi * 256 + uint lo" "uint hi * 256 + uint lo < 65536"
    using uint_byte_bounds [of hi] uint_byte_bounds [of lo] by simp_all
  ultimately show ?thesis by simp
qed

lemma sint_le16:
  "sint (le16 lo hi) =
     (if uint hi < 128 then uint lo + 256 * uint hi else uint lo + 256 * uint hi - 65536)"
proof -
  let ?u = "uint lo + 256 * uint hi"
  have s: "sint (le16 lo hi) = (?u + 32768) mod 65536 - 32768"
    by (simp add: sint_uint uint_le16 signed_take_bit_eq_take_bit_shift take_bit_eq_mod)
  show ?thesis
  proof (cases "uint hi < 128")
    case True
    then have "0 \<le> ?u + 32768" "?u + 32768 < 65536"
      using uint_byte_bounds [of hi] uint_byte_bounds [of lo] by linarith+
    then have "(?u + 32768) mod 65536 = ?u + 32768" by (simp add: mod_pos_pos_trivial)
    then show ?thesis using True s by simp
  next
    case False
    then have "0 \<le> ?u - 32768" "?u - 32768 < 65536"
      using uint_byte_bounds [of hi] uint_byte_bounds [of lo] by linarith+
    then have "(?u - 32768) mod 65536 = ?u - 32768" by (simp add: mod_pos_pos_trivial)
    moreover have "?u + 32768 = ?u - 32768 + 65536" by linarith
    then have "(?u + 32768) mod 65536 = (?u - 32768) mod 65536"
      by (simp only: mod_add_self2)
    ultimately have "(?u + 32768) mod 65536 = ?u - 32768"
      by (simp only:)
    then show ?thesis using False s by simp
  qed
qed

lemma sint_int16_range: "- 32768 \<le> sint (w :: int16) \<and> sint w \<le> 32767"
  using sint_ge [of w] sint_lt [of w] by simp

lemma sample_in_unit_interval:
  "- 1 \<le> real_of_int (sint (w :: int16)) / 32768 \<and> real_of_int (sint w) / 32768 < 1"
proof -
  have "- 32768 \<le> real_of_int (sint w)" "real_of_int (sint w) < 32768"
    using sint_int16_range [of w] by linarith+
  then show ?thesis by simp
qed

lemma deinterleave_samples:
  assumes "ch \<in> set (getChannelData (deinterleave d nc sr))" "v \<in> set ch"
  shows "\<exists>j < length d. v = Num (real_of_int (sint (d ! j)) / 32768)"
proof -
  from assms(1) obtain c where c: "c < nc"
    and ch: "ch = map (\<lambda>i. Num (real_of_int (sint (d ! (i * nc + c))) / 32768)) [0..<length d div nc]"
    by (auto simp: deinterleave_def)
  from assms(2) ch obtain i where i: "i < length d div nc"
    and v: "v = Num (real_of_int (sint (d ! (i * nc + c))) / 32768)"
    by auto
  have "i * nc + c < length d" using frame_index_in_range [OF i c] .
  then show ?thesis using v by blast
qed

lemma silent_buffer_samples:
  assumes "ch \<in> set (getChannelData (silent_buffer nc len sr))" "v \<in> set ch"
  shows "v = Num (real_of_int (sint (0 :: int16)) / 32768)"
  using assms by (auto simp: silent_buffer_def)

lemma decodeAudioData_samples:
  assumes "decodeAudioData data sr nc = Inr buf"
    and "ch \<in> set (getChannelData buf)" "v \<in> set ch"
  shows "\<exists>w :: int16. v = Num (real_of_int (sint w) / 32768)"
proof (cases data)
  case None
  then have "buf = silent_buffer nc 1 sr" using assms(1) by (simp add: decodeAudioData_null)
  then show ?thesis using silent_buffer_samples assms(2,3) by blast
next
  case (Some d)
  show ?thesis
  proof (cases "byteLength d = 0")
    case True
    then have "buf = silent_buffer nc 1 sr"
      using assms(1) Some by (simp add: decodeAudioData_def createBuffer_def)
    then show ?thesis using silent_buffer_samples assms(2,3) by blast
  next
    case ne: False
    show ?thesis
    proof (cases "nc = 0")
      case True
      then have "False"
        using assms(1) Some ne
        by (auto simp: decodeAudioData_def Let_def createBuffer_def split: sum.splits if_splits)
      then show ?thesis ..
    next
      case False
      then have nc: "0 < nc" by simp
      from decodeAudioData_view [OF ne nc, of sr] assms(1) Some
      obtain d16 where "buf = deinterleave d16 nc sr"
        by (auto split: sum.splits if_splits)
      then show ?thesis using deinterleave_samples assms(2,3) by blast
    qed
  qed
qed

text \<open>Base64: decoding what the encoder wrote gives the bytes back.\<close>

lemma le16_int16_bytes: "le16 (ucast w) (ucast (drop_bit 8 w)) = (w :: int16)"
  by (rule bit_word_eqI) (auto simp: le16_word_cat bit_simps)

lemma pcm_samples_le_bytes: "pcm_samples (le_bytes V) = V"
  by (induction V) (simp_all add: le_bytes_def int16_bytes_def le16_int16_bytes)

lemma length_le_bytes: "length (le_bytes V) = 2 * length V"
  by (induction V) (simp_all add: le_bytes_def int16_bytes_def)

lemma split24:
  "((n div 262144 * 64 + n div 4096 mod 64) * 64 + n div 64 mod 64) * 64 + n mod 64 = (n :: nat)"
proof -
  have a: "n div 4096 = n div 64 div 64" by (simp add: div_mult2_eq [symmetric])
  have b: "n div 262144 = n div 64 div 64 div 64" by (simp add: div_mult2_eq [symmetric])
  show ?thesis unfolding a b by (simp only: div_mult_mod_eq)
qed

lemma split18:
  "(n div 4096 * 64 + n div 64 mod 64) * 64 + n mod 64 = (n :: nat)"
proof -
  have a: "n div 4096 = n div 64 div 64" by (simp add: div_mult2_eq [symmetric])
  show ?thesis unfolding a by (simp only: div_mult_mod_eq)
qed

lemma bytes24:
  assumes "b < 256" "c < 256"
  shows "((a * 256 + b) * 256 + c) div 65536 = (a :: nat)"
    and "((a * 256 + b) * 256 + c) div 256 mod 256 = b"
    and "((a * 256 + b) * 256 + c) mod 256 = c"
proof -
  have "((a * 256 + b) * 256 + c) div 256 = a * 256 + b" using assms by simp
  moreover have "((a * 256 + b) * 256 + c) div 65536 = ((a * 256 + b) * 256 + c) div 256 div 256"
    by (simp add: div_mult2_eq [symmetric])
  ultimately show "((a * 256 + b) * 256 + c) div 65536 = a"
    and "((a * 256 + b) * 256 + c) div 256 mod 256 = b"
    using assms by simp_all
  show "((a * 256 + b) * 256 + c) mod 256 = c"
    by (subst mod_mult_self3) (simp add: assms)
qed

lemma decode_encode_sextets:
  "list_all (\<lambda>b. b < 256) bs \<Longrightarrow> decode_sextets (encode_sextets bs) = bs"
proof (induction bs rule: encode_sextets.induct)
  case (1 a b c rest)
  then have bc: "b < 256" "c < 256" and rest: "decode_sextets (encode_sextets rest) = rest"
    by simp_all
  define n where "n = (a * 256 + b) * 256 + c"
  have "decode_sextets (encode_sextets (a # b # c # rest)) =
        decode_sextets (n div 262144 # n div 4096 mod 64 # n div 64 mod 64 # n mod 64 #
                        encode_sextets rest)"
    by (simp only: encode_sextets.simps Let_def n_def)
  also have "\<dots> = n div 65536 # n div 256 mod 256 # n mod 256 # rest"
    by (simp only: decode_sextets.simps Let_def split24 rest)
  also have "\<dots> = a # b # c # rest"
    unfolding n_def by (simp only: bytes24 [OF bc])
  finally show ?case .
next
  case (2 a b)
  define n where "n = (a * 256 + b) * 4"
  have "decode_sextets (encode_sextets [a, b]) =
        decode_sextets [n div 4096, n div 64 mod 64, n mod 64]"
    by (simp only: encode_sextets.simps Let_def n_def)
  also have "\<dots> = [n div 4 div 256, n div 4 mod 256]"
    by (simp only: decode_sextets.simps Let_def split18)
  also have "n div 4 = a * 256 + b" by (simp add: n_def)
  also have "[(a * 256 + b) div 256, (a * 256 + b) mod 256] = [a, b]"
    using 2 by simp
  finally show ?case .
next
  case (3 a)
  define n where "n = a * 16"
  have "decode_sextets (encode_sextets [a]) = decode_sextets [n div 64, n mod 64]"
    by (simp only: encode_sextets.simps Let_def n_def)
  also have "\<dots> = [n div 16]"
    by (simp only: decode_sextets.simps div_mult_mod_eq)
  also have "n div 16 = a" by (simp add: n_def)
  finally show ?case .
qed simp

lemma encode_sextets_bound:
  "list_all (\<lambda>b. b < 256) bs \<Longrightarrow> list_all (\<lambda>v. v < 64) (encode_sextets bs)"
proof (induction bs rule: encode_sextets.induct)
  case (1 a b c rest)
  then have "a < 256" "b < 256" "c < 256" by simp_all
  then have "(a * 256 + b) * 256 + c < 64 * 262144" by simp
  then have "((a * 256 + b) * 256 + c) div 262144 < 64"
    by (simp only: less_mult_imp_div_less)
  with 1 show ?case by (simp add: Let_def)
next
  case (2 a b)
  then have "a < 256" "b < 256" by simp_all
  then have "(a * 256 + b) * 4 < 64 * 4096" by simp
  then have "(a * 256 + b) * 4 div 4096 < 64"
    by (simp only: less_mult_imp_div_less)
  then show ?case by (simp add: Let_def)
next
  case (3 a)
  then have "a * 16 < 64 * 64" by simp
  then have "a * 16 div 64 < 64"
    by (simp only: less_mult_imp_div_less)
  then show ?case by (simp add: Let_def)
qed simp

lemma length_encode_sextets:
  "length (encode_sextets bs) + (3 - length bs mod 3) mod 3 = 4 * ((length bs + 2) div 3)"
proof (induction bs rule: encode_sextets.induct)
  case (1 a b c rest)
  have "(5 + length rest) div 3 = Suc ((2 + length rest) div 3)" by presburger
  moreover have "Suc (Suc (Suc (length rest))) mod 3 = length rest mod 3" by presburger
  ultimately show ?case using 1 by (simp add: Let_def)
qed (simp_all add: Let_def)

lemma length_encode_sextets_mod: "length (encode_sextets bs) mod 4 \<noteq> 1"
proof (induction bs rule: encode_sextets.induct)
  case (1 a b c rest)
  have "Suc (Suc (Suc (Suc (length (encode_sextets rest))))) mod 4 =
        length (encode_sextets rest) mod 4"
    by presburger
  then show ?case using 1 by (simp add: Let_def)
qed (simp_all add: Let_def)

lemma base64_value_char: "v < 64 \<Longrightarrow> base64_value (base64_char v) = Some v"
  by (auto simp: base64_value_def base64_char_def)

lemma base64_char_not_padding: "v < 64 \<Longrightarrow> base64_char v \<noteq> 61"
  by (auto simp: base64_char_def)

lemma base64_char_not_whitespace: "\<not> ascii_whitespace (base64_char v)"
  by (auto simp: base64_char_def ascii_whitespace_def)

lemma those_base64_value:
  "list_all (\<lambda>v. v < 64) vs \<Longrightarrow> those (map base64_value (map base64_char vs)) = Some vs"
  by (induction vs) (simp_all add: base64_value_char)

lemma last_not_padding:
  "list_all (\<lambda>c. c \<noteq> 61) body \<Longrightarrow> body \<noteq> [] \<Longrightarrow> last body \<noteq> (61 :: nat)"
  using last_in_set [of body] by (auto simp: list_all_iff)

lemma strip_padding_append:
  assumes "list_all (\<lambda>c. c \<noteq> 61) body" "k \<le> 2" "(length body + k) mod 4 = 0"
  shows "strip_padding (body @ replicate k 61) = body"
proof -
  consider "k = 0" | "k = 1" | "k = 2" using assms(2) by linarith
  then show ?thesis
  proof cases
    case 1
    show ?thesis
    proof (cases "body = []")
      case True
      then show ?thesis using 1 by (simp add: strip_padding_def)
    next
      case False
      then have "last body \<noteq> 61" using assms(1) by (simp add: last_not_padding)
      then show ?thesis using 1 False by (simp add: strip_padding_def)
    qed
  next
    case 2
    then have ne: "body \<noteq> []" using assms(3) by auto
    then have l: "last body \<noteq> 61" using assms(1) by (simp add: last_not_padding)
    have "body @ replicate k 61 = body @ [61]" using 2 by simp
    moreover have "strip_padding (body @ [61]) = body"
      using l ne assms(3) 2 by (simp add: strip_padding_def butlast_append)
    ultimately show ?thesis by simp
  next
    case 3
    have "body @ replicate k 61 = (body @ [61]) @ [61]" using 3 by (simp add: numeral_2_eq_2)
    moreover have "strip_padding ((body @ [61]) @ [61]) = body"
      using assms(3) 3 by (simp add: strip_padding_def butlast_append)
    ultimately show ?thesis by simp
  qed
qed

lemma forgiving_base64_decode_encode:
  "forgiving_base64_decode (base64_encode bs) = Some (map unat bs)"
proof -
  let ?sx = "encode_sextets (map unat bs)"
  let ?body = "map base64_char ?sx"
  let ?k = "(3 - length bs mod 3) mod 3"
  have bytes: "list_all (\<lambda>b. b < 256) (map unat bs)"
  proof -
    have "unat b < 256" for b :: byte using unsigned_less [of b, where ?'a = nat] by simp
    then show ?thesis by (simp add: list_all_iff)
  qed
  have sx: "list_all (\<lambda>v. v < 64) ?sx" using encode_sextets_bound [OF bytes] .
  have nopad: "list_all (\<lambda>c. c \<noteq> 61) ?body"
    using sx by (simp add: list_all_iff base64_char_not_padding)
  have len: "(length ?body + ?k) mod 4 = 0"
    using length_encode_sextets [of "map unat bs"] by simp
  have "?k < 3" by (rule mod_less_divisor) simp
  then have k: "?k \<le> 2" by linarith
  have "\<not> ascii_whitespace 61" by (simp add: ascii_whitespace_def)
  then have ws: "filter (\<lambda>c. \<not> ascii_whitespace c) (base64_encode bs) = base64_encode bs"
    by (simp add: base64_encode_def base64_char_not_whitespace filter_id_conv)
  have sp: "strip_padding (base64_encode bs) = ?body"
    unfolding base64_encode_def using strip_padding_append [OF nopad k len] .
  have m: "length ?body mod 4 \<noteq> 1"
    using length_encode_sextets_mod [of "map unat bs"] by simp
  show ?thesis
    using m those_base64_value [OF sx] decode_encode_sextets [OF bytes]
    by (simp add: forgiving_base64_decode_def ws sp Let_def)
qed

lemma base64_encode_nonempty: "bs \<noteq> [] \<Longrightarrow> base64_encode bs \<noteq> []"
proof -
  assume "bs \<noteq> []"
  then have "encode_sextets (map unat bs) \<noteq> []"
    by (cases "map unat bs" rule: encode_sextets.cases) (auto simp: Let_def)
  then show ?thesis by (simp add: base64_encode_def)
qed

lemma decodeBase64_encode:
  assumes "bs \<noteq> []"
  shows "decodeBase64 (Some (base64_encode bs)) = Inr (Uint8Array_of bs)"
proof -
  have "atob (base64_encode bs) = Inr (map unat bs)"
    by (simp add: atob_def forgiving_base64_decode_encode)
  moreover have "map of_nat (map unat bs) = bs"
    by (simp add: map_idI)
  ultimately show ?thesis
    using base64_encode_nonempty [OF assms] by (simp add: decodeBase64_atob)
qed

lemma le_bytes_nonempty: "V \<noteq> [] \<Longrightarrow> le_bytes V \<noteq> []"
  by (cases V) (simp_all add: le_bytes_def int16_bytes_def)

lemma decodeAudioData_fresh_returns:
  assumes "bs = [] \<or> (0 < nc \<and> nc \<le> length bs div 2)"
  shows "\<exists>buf. decodeAudioData (Some (Uint8Array_of bs)) sr nc = Inr buf"
proof (cases "bs = []")
  case True
  then show ?thesis by (simp add: decodeAudioData_empty)
next
  case False
  then have "0 < nc" "nc \<le> length bs div 2" using assms by simp_all
  then show ?thesis using decodeAudioData_fresh [of nc bs sr] by simp
qed

lemma decodeAudioData_fresh_error:
  "decodeAudioData (Some (Uint8Array_of bs)) sr nc = Inl e \<Longrightarrow> e = NotSupportedError"
proof -
  assume e: "decodeAudioData (Some (Uint8Array_of bs)) sr nc = Inl e"
  show ?thesis
  proof (cases "bs = []")
    case True
    then show ?thesis using e by (simp add: decodeAudioData_empty)
  next
    case ne: False
    show ?thesis
    proof (cases "nc = 0")
      case True
      then show ?thesis using e decodeAudioData_no_channels [OF ne, of sr] by simp
    next
      case False
      then have "0 < nc" by simp
      from decodeAudioData_fresh_view [OF ne this, of sr] e show ?thesis
        by (simp split: if_splits)
    qed
  qed
qed

lemma those_map_None: "those (map f xs) = None \<longleftrightarrow> (\<exists>x \<in> set xs. f x = None)"
  by (induction xs) (auto split: option.splits)

lemma forgiving_base64_decode_None:
  "forgiving_base64_decode s = None \<longleftrightarrow>
     length (strip_padding (filter (\<lambda>c. \<not> ascii_whitespace c) s)) mod 4 = 1
     \<or> (\<exists>c \<in> set (strip_padding (filter (\<lambda>c. \<not> ascii_whitespace c) s)). base64_value c = None)"
proof -
  define d where "d = strip_padding (filter (\<lambda>c. \<not> ascii_whitespace c) s)"
  have "forgiving_base64_decode s =
          (if length d mod 4 = 1 then None
           else (case those (map base64_value d) of None \<Rightarrow> None
                 | Some vs \<Rightarrow> Some (decode_sextets vs)))"
    by (simp add: forgiving_base64_decode_def Let_def d_def)
  then have "forgiving_base64_decode s = None \<longleftrightarrow>
               length d mod 4 = 1 \<or> those (map base64_value d) = None"
    by (simp split: option.splits)
  then show ?thesis unfolding those_map_None d_def .
qed

lemma strip_padding_keeps:
  assumes "c \<in> set d" "c \<noteq> 61"
  shows "c \<in> set (strip_padding d)"
proof -
  have bl: "c \<in> set (butlast xs)" if "c \<in> set xs" "xs \<noteq> []" "last xs = 61" for xs
  proof -
    have "xs = butlast xs @ [last xs]" using that(2) by simp
    then have "set xs = set (butlast xs) \<union> {last xs}"
      by (metis set_append list.set(1) list.set(2) Un_insert_right sup_bot.right_neutral
            insert_is_Un Un_commute)
    then show ?thesis using that(1,3) assms(2) by auto
  qed
  have ne: "d \<noteq> []" using assms(1) by auto
  show ?thesis
  proof (cases "length d mod 4 = 0 \<and> last d = 61")
    case False
    then show ?thesis using assms(1) by (auto simp: strip_padding_def)
  next
    case True
    then have one: "c \<in> set (butlast d)" using bl [OF assms(1) ne] by simp
    show ?thesis
    proof (cases "2 \<le> length d \<and> last (butlast d) = 61")
      case True
      then have "butlast d \<noteq> []" by (cases d) auto
      then have "c \<in> set (butlast (butlast d))" using bl [OF one] True by simp
      then show ?thesis using True \<open>length d mod 4 = 0 \<and> last d = 61\<close>
        by (simp add: strip_padding_def)
    next
      case False
      have "Suc 0 \<le> length d" using ne by (cases d) simp_all
      then have "strip_padding d = butlast d"
        using False \<open>length d mod 4 = 0 \<and> last d = 61\<close>
        by (auto simp: strip_padding_def)
      then show ?thesis using one by simp
    qed
  qed
qed

lemma decodeBase64_error_iff:
  "decodeBase64 (Some s) = Inl InvalidCharacterError \<longleftrightarrow>
     s \<noteq> [] \<and> forgiving_base64_decode s = None"
  by (cases "s = []")
     (auto simp: decodeBase64_falsy decodeBase64_atob atob_def split: option.splits)

lemma decodeBase64_cases:
  "decodeBase64 b = Inl InvalidCharacterError \<or> (\<exists>bs. decodeBase64 b = Inr (Uint8Array_of bs))"
proof (cases b)
  case None
  then have "decodeBase64 b = Inr (Uint8Array_of [])" by (simp add: decodeBase64_falsy)
  then show ?thesis by blast
next
  case (Some s)
  show ?thesis
  proof (cases "s = []")
    case True
    then have "decodeBase64 b = Inr (Uint8Array_of [])" using Some by (simp add: decodeBase64_falsy)
    then show ?thesis by blast
  next
    case False
    show ?thesis
    proof (cases "forgiving_base64_decode s")
      case None
      then show ?thesis using Some False by (simp add: decodeBase64_atob atob_def)
    next
      case (Some t)
      then have "decodeBase64 b = Inr (Uint8Array_of (map of_nat t))"
        using \<open>b = Some s\<close> False by (simp add: decodeBase64_atob atob_def)
      then show ?thesis by blast
    qed
  qed
qed

lemma decodePipeline_error_iff:
  "decodePipeline b sr nc = Inl InvalidCharacterError \<longleftrightarrow>
   decodeBase64 b = Inl InvalidCharacterError"
proof (cases "decodeBase64 b")
  case (Inl x)
  then show ?thesis by (simp add: decodePipeline_def)
next
  case (Inr a)
  then obtain bs where "a = Uint8Array_of bs" using decodeBase64_cases [of b] by auto
  then show ?thesis
    using Inr decodeAudioData_fresh_error [of bs sr nc InvalidCharacterError]
    by (auto simp: decodePipeline_def)
qed

text \<open>
  What \<open>atob\<close> accepts beyond padded base64: ASCII whitespace anywhere, and a
  missing padding; a padding that does not complete a group of four is rejected.
\<close>

lemma atob_whitespace: "atob (js ''QUJD '') = Inr [65, 66, 67]"
  by (simp add: atob_def forgiving_base64_decode_def strip_padding_def ascii_whitespace_def
        base64_value_def)

lemma atob_unpadded: "atob (js ''QQ'') = Inr [65]"
  by (simp add: atob_def forgiving_base64_decode_def strip_padding_def ascii_whitespace_def
        base64_value_def)

lemma atob_short_padding: "atob (js ''QQ='') = Inl InvalidCharacterError"
  by (simp add: atob_def forgiving_base64_decode_def strip_padding_def ascii_whitespace_def
        base64_value_def)

lemma decodeBase64_whitespace:
  "decodeBase64 (Some (js ''QUJD '')) = Inr (Uint8Array_of [65, 66, 67])"
proof -
  have "js ''QUJD '' \<noteq> []" by simp
  from decodeBase64_atob [OF this] show ?thesis
    unfolding atob_whitespace by simp
qed

text \<open>
  The player on a payload of one byte: \<open>QQ==\<close> decodes to the byte 65, which holds
  no complete sample, and the call of \<open>createBuffer\<close> on line 154 throws.
\<close>

lemma atob_one_byte: "atob (js ''QQ=='') = Inr [65]"
  by (simp add: atob_def forgiving_base64_decode_def strip_padding_def ascii_whitespace_def
        base64_value_def)

lemma handlePlay_one_byte: "handlePlay_decode (Some (js ''QQ=='')) = Inl NotSupportedError"
proof -
  have "js ''QQ=='' \<noteq> []" by simp
  from decodeBase64_atob [OF this]
  have "decodeBase64 (Some (js ''QQ=='')) = Inr (Uint8Array_of [65])"
    unfolding atob_one_byte by simp
  moreover have "decodeAudioData (Some (Uint8Array_of [65])) 24000 1 = Inl NotSupportedError"
    by (rule decodeAudioData_short) simp_all
  ultimately show ?thesis
    by (simp only: handlePlay_decode_def decodePipeline_def sum.case)
qed

text \<open>
  The store-passing functions compute what the functions on values compute, and
  only append to the store.
\<close>

lemma bytes_at_update [simp]:
  "a < length st \<Longrightarrow> bytes_at (st[a := ArrayBuffer b]) a = b"
  by (simp add: bytes_at_def)

lemma floats_at_update [simp]:
  "a < length st \<Longrightarrow> floats_at (st[a := Float32Array f]) a = f"
  by (simp add: floats_at_def)

lemma list_update_same: "st ! a = x \<Longrightarrow> st[a := x] = st"
  by auto

lemma decodeBase64_loop_st_eq:
  assumes "buffer_ref r < length st" "st ! buffer_ref r = ArrayBuffer b"
  shows "decodeBase64_loop_st s i r st =
         st[buffer_ref r := ArrayBuffer (buffer (decodeBase64_loop s i
              \<lparr>buffer = b, byteOffset = byteOffset_ref r, byteLength = byteLength_ref r\<rparr>))]"
  using assms
proof (induction s i r st arbitrary: b rule: decodeBase64_loop_st.induct)
  case (1 s i r st)
  let ?U = "\<lparr>buffer = b, byteOffset = byteOffset_ref r, byteLength = byteLength_ref r\<rparr>"
  show ?case
  proof (cases "i < length s")
    case False
    have "decodeBase64_loop_st s i r st = st"
      using False by (subst decodeBase64_loop_st.simps) simp
    moreover have "decodeBase64_loop s i ?U = ?U"
      using False by (subst decodeBase64_loop.simps) simp
    ultimately show ?thesis using 1(3) by (simp add: list_update_same)
  next
    case True
    let ?b' = "buffer (set_Uint8 ?U i (s ! i))"
    let ?st' = "set_Uint8_st r i (s ! i) st"
    have bat: "bytes_at st (buffer_ref r) = b" using 1(2,3) by (simp add: bytes_at_def)
    have st': "?st' = st[buffer_ref r := ArrayBuffer ?b']"
      using 1(3) bat by (auto simp: set_Uint8_st_def set_Uint8_def list_update_same)
    have U': "set_Uint8 ?U i (s ! i) =
              \<lparr>buffer = ?b', byteOffset = byteOffset_ref r, byteLength = byteLength_ref r\<rparr>"
      by (simp add: set_Uint8_def)
    have len: "buffer_ref r < length ?st'" using 1(2) st' by simp
    have nth: "?st' ! buffer_ref r = ArrayBuffer ?b'" using 1(2) st' by simp
    have "decodeBase64_loop_st s i r st = decodeBase64_loop_st s (i + 1) r ?st'"
      using True by (subst decodeBase64_loop_st.simps) simp
    also have "\<dots> = ?st'[buffer_ref r := ArrayBuffer (buffer (decodeBase64_loop s (i + 1)
              \<lparr>buffer = ?b', byteOffset = byteOffset_ref r, byteLength = byteLength_ref r\<rparr>))]"
      using 1(1) [OF True len nth] .
    also have "decodeBase64_loop s (i + 1)
              \<lparr>buffer = ?b', byteOffset = byteOffset_ref r, byteLength = byteLength_ref r\<rparr>
              = decodeBase64_loop s i ?U"
      using True U' by (subst (2) decodeBase64_loop.simps) simp
    finally show ?thesis by (simp add: st')
  qed
qed

lemma decodeBase64_st_eq:
  "decodeBase64_st base64 st =
     (case decodeBase64 base64 of
        Inl e \<Rightarrow> (Inl e, st)
      | Inr u \<Rightarrow>
          (Inr \<lparr>buffer_ref = length st, byteOffset_ref = byteOffset u,
                byteLength_ref = byteLength u\<rparr>,
           st @ [ArrayBuffer (buffer u)]))"
proof -
  have loop: "decodeBase64_loop_st t 0
                \<lparr>buffer_ref = length st, byteOffset_ref = 0, byteLength_ref = length t\<rparr>
                (st @ [ArrayBuffer (replicate (length t) 0)]) =
              st @ [ArrayBuffer (buffer (decodeBase64_loop t 0 (new_Uint8Array (length t))))]"
    for t
    using decodeBase64_loop_st_eq
            [of "\<lparr>buffer_ref = length st, byteOffset_ref = 0, byteLength_ref = length t\<rparr>"
                "st @ [ArrayBuffer (replicate (length t) 0)]" "replicate (length t) 0" t 0]
    by (simp add: new_Uint8Array_def)
  show ?thesis
    by (auto simp: decodeBase64_st_def decodeBase64_def new_Uint8Array_st_def loop
                   new_Uint8Array_def decodeBase64_loop_new [unfolded new_Uint8Array_def]
                   Uint8Array_of_def
             split: option.splits sum.splits)
qed

lemma fill_channel_st_eq:
  assumes "a < length st" "st ! a = Float32Array cd"
  shows "fill_channel_st d fc nc c i a st = st[a := Float32Array (fill_channel d fc nc c i cd)]"
  using assms
proof (induction d fc nc c i a st arbitrary: cd rule: fill_channel_st.induct)
  case (1 d fc nc c i a st)
  show ?case
  proof (cases "real i < fc")
    case False
    have "fill_channel_st d fc nc c i a st = st"
      using False by (subst fill_channel_st.simps) simp
    moreover have "fill_channel d fc nc c i cd = cd"
      using False by (subst fill_channel.simps) simp
    ultimately show ?thesis using 1(3) by (simp add: list_update_same)
  next
    case True
    let ?cd' = "set_Float32 cd i (sample_at d (i * nc + c))"
    let ?st' = "set_Float32_st a i (sample_at d (i * nc + c)) st"
    have fat: "floats_at st a = cd" using 1(2,3) by (simp add: floats_at_def)
    have st': "?st' = st[a := Float32Array ?cd']"
      by (simp add: set_Float32_st_def fat)
    have len: "a < length ?st'" using 1(2) st' by simp
    have nth: "?st' ! a = Float32Array ?cd'" using 1(2) st' by simp
    have "fill_channel_st d fc nc c i a st = fill_channel_st d fc nc c (i + 1) a ?st'"
      using True by (subst fill_channel_st.simps) simp
    also have "\<dots> = ?st'[a := Float32Array (fill_channel d fc nc c (i + 1) ?cd')]"
      using 1(1) [OF True len nth] .
    also have "fill_channel d fc nc c (i + 1) ?cd' = fill_channel d fc nc c i cd"
      using True by (subst (2) fill_channel.simps) simp
    finally show ?thesis by (simp add: st')
  qed
qed

lemma fill_channels_st_eq:
  assumes "length chans = nc" "channel_refs r = [length pre..<length pre + nc]"
  shows "fill_channels_st d fc nc k r (pre @ map Float32Array chans) =
         pre @ map Float32Array
                 (getChannelData (fill_channels d fc nc k (B\<lparr>getChannelData := chans\<rparr>)))"
  using assms(1)
proof (induction "nc - k" arbitrary: k chans)
  case 0
  then have nk: "\<not> k < nc" by simp
  have "fill_channels_st d fc nc k r (pre @ map Float32Array chans) =
             pre @ map Float32Array chans"
    using nk by (subst fill_channels_st.simps) simp
  moreover have "fill_channels d fc nc k (B\<lparr>getChannelData := chans\<rparr>) =
                 B\<lparr>getChannelData := chans\<rparr>"
    using nk by (subst fill_channels.simps) simp
  ultimately show ?case by simp
next
  case (Suc m)
  then have k: "k < nc" by simp
  let ?st = "pre @ map Float32Array chans"
  let ?f = "fill_channel d fc nc k 0 (chans ! k)"
  have ref: "channel_refs r ! k = length pre + k" using assms(2) k by simp
  have a: "length pre + k < length ?st" using k Suc.prems by simp
  have n: "?st ! (length pre + k) = Float32Array (chans ! k)"
    using k Suc.prems by (simp add: nth_append)
  have "fill_channel_st d fc nc k 0 (channel_refs r ! k) ?st = ?st[length pre + k := Float32Array ?f]"
    unfolding ref using fill_channel_st_eq [OF a n] .
  also have "\<dots> = pre @ map Float32Array (chans[k := ?f])"
    by (simp add: list_update_append map_update)
  finally have step: "fill_channel_st d fc nc k 0 (channel_refs r ! k) ?st =
                      pre @ map Float32Array (chans[k := ?f])" .
  have len': "length (chans[k := ?f]) = nc" using Suc.prems by simp
  have m: "m = nc - (k + 1)" using Suc.hyps(2) by simp
  have "fill_channels_st d fc nc k r ?st =
        fill_channels_st d fc nc (k + 1) r (pre @ map Float32Array (chans[k := ?f]))"
    using k step by (subst fill_channels_st.simps) simp
  also have "\<dots> = pre @ map Float32Array
                 (getChannelData (fill_channels d fc nc (k + 1) (B\<lparr>getChannelData := chans[k := ?f]\<rparr>)))"
    using Suc.hyps(1) [OF m len'] .
  also have "fill_channels d fc nc (k + 1) (B\<lparr>getChannelData := chans[k := ?f]\<rparr>) =
             fill_channels d fc nc k (B\<lparr>getChannelData := chans\<rparr>)"
    using k by (subst (2) fill_channels.simps) simp
  finally show ?case .
qed

lemma createBuffer_st_eq:
  "0 < len \<Longrightarrow>
   createBuffer_st nc len sr st =
     (Inr \<lparr>numberOfChannels_ref = nc, length_ref = len, sampleRate_ref = sr,
           channel_refs = [length st..<length st + nc]\<rparr>,
      st @ map Float32Array (getChannelData (silent_buffer nc len sr)))"
  by (simp add: createBuffer_st_def silent_buffer_def)

lemma createBuffer_st_zero: "createBuffer_st nc 0 sr st = (Inl NotSupportedError, st)"
  by (simp add: createBuffer_st_def)

lemma floats_at_append:
  "map (floats_at (pre @ map Float32Array chans)) [length pre..<length pre + length chans] = chans"
  by (rule nth_equalityI) (simp_all add: floats_at_def nth_append)

lemma AudioBuffer_in_created:
  "AudioBuffer_in (st @ map Float32Array (getChannelData (silent_buffer nc len sr)))
     \<lparr>numberOfChannels_ref = nc, length_ref = len, sampleRate_ref = sr,
      channel_refs = [length st..<length st + nc]\<rparr> = silent_buffer nc len sr"
  using floats_at_append [of st "getChannelData (silent_buffer nc len sr)"]
  by (simp add: AudioBuffer_in_def silent_buffer_def)

lemma AudioBuffer_in_appended:
  "AudioBuffer_in (pre @ map Float32Array (getChannelData X))
     \<lparr>numberOfChannels_ref = numberOfChannels X, length_ref = length_frames X,
      sampleRate_ref = sampleRate X,
      channel_refs = [length pre..<length pre + length (getChannelData X)]\<rparr> = X"
  using floats_at_append [of pre "getChannelData X"]
  by (simp add: AudioBuffer_in_def)

lemma fill_channels_fields:
  "numberOfChannels (fill_channels d fc nc k B) = numberOfChannels B"
  "length_frames (fill_channels d fc nc k B) = length_frames B"
  "sampleRate (fill_channels d fc nc k B) = sampleRate B"
  "length (getChannelData (fill_channels d fc nc k B)) = length (getChannelData B)"
  by (simp_all add: fill_channels_eq)

lemma decodeAudioData_st_created:
  "snd (createBuffer_st nc len sr st) =
     st @ (if len = 0 then [] else map Float32Array (getChannelData (silent_buffer nc len sr)))
   \<and> result_in (createBuffer_st nc len sr st) = createBuffer nc len sr"
  by (cases "len = 0")
     (simp_all add: createBuffer_st_eq createBuffer_st_zero createBuffer_def result_in_def
        AudioBuffer_in_created)

lemma decodeAudioData_st_filled:
  assumes "0 < nc"
  shows "snd (case createBuffer_st nc len sr st of
                (Inl e, st') \<Rightarrow> (Inl e, st')
              | (Inr buf, st') \<Rightarrow> (Inr buf, fill_channels_st d fc nc 0 buf st')) =
           st @ (if len = 0 then []
                 else map Float32Array
                        (getChannelData (fill_channels d fc nc 0 (silent_buffer nc len sr))))
         \<and> result_in (case createBuffer_st nc len sr st of
                (Inl e, st') \<Rightarrow> (Inl e, st')
              | (Inr buf, st') \<Rightarrow> (Inr buf, fill_channels_st d fc nc 0 buf st')) =
           (case createBuffer nc len sr of
              Inl e \<Rightarrow> Inl e
            | Inr buf \<Rightarrow> Inr (fill_channels d fc nc 0 buf))"
proof (cases "len = 0")
  case True
  then show ?thesis
    by (simp add: createBuffer_st_zero createBuffer_def result_in_def)
next
  case False
  then have len: "0 < len" by simp
  let ?B = "silent_buffer nc len sr"
  let ?r = "\<lparr>numberOfChannels_ref = nc, length_ref = len, sampleRate_ref = sr,
             channel_refs = [length st..<length st + nc]\<rparr>"
  let ?X = "fill_channels d fc nc 0 ?B"
  have l: "length (getChannelData ?B) = nc" by (simp add: silent_buffer_def)
  have B: "?B\<lparr>getChannelData := getChannelData ?B\<rparr> = ?B" by simp
  have st: "fill_channels_st d fc nc 0 ?r (st @ map Float32Array (getChannelData ?B)) =
            st @ map Float32Array (getChannelData ?X)"
    using fill_channels_st_eq [OF l, of ?r st d fc 0 ?B] unfolding B by simp
  have f: "numberOfChannels ?X = nc" "length_frames ?X = len" "sampleRate ?X = sr"
          "length (getChannelData ?X) = nc"
    by (simp_all add: fill_channels_fields silent_buffer_def)
  have "AudioBuffer_in (st @ map Float32Array (getChannelData ?X)) ?r = ?X"
    using AudioBuffer_in_appended [of st ?X] unfolding f .
  then show ?thesis
    using len by (simp add: createBuffer_st_eq createBuffer_def st result_in_def)
qed

lemma refinement_step:
  assumes "run = X" "spec = Y" "snd X = mid @ added \<and> result_in X = Y" "mid = st @ before"
  shows "\<exists>extra. snd run = st @ extra \<and> result_in run = spec"
  using assms by auto

lemma decodeAudioData_st_eq:
  "\<exists>extra. snd (decodeAudioData_st data sr nc st) = st @ extra
     \<and> result_in (decodeAudioData_st data sr nc st) =
         decodeAudioData (map_option (Uint8Array_in st) data) sr nc"
proof (cases data)
  case None
  have "decodeAudioData_st data sr nc st = createBuffer_st nc 1 sr st"
    using None by (simp add: decodeAudioData_st_def)
  moreover have "decodeAudioData (map_option (Uint8Array_in st) data) sr nc =
                 createBuffer nc 1 sr"
    using None by (simp add: decodeAudioData_def)
  ultimately show ?thesis
    using decodeAudioData_st_created [of nc 1 sr st]
    by (rule refinement_step [where before = "[]"]) simp
next
  case (Some d)
  let ?U = "Uint8Array_in st d"
  have U: "buffer ?U = bytes_at st (buffer_ref d)" "byteOffset ?U = byteOffset_ref d"
          "byteLength ?U = byteLength_ref d"
    by (simp_all add: Uint8Array_in_def)
  show ?thesis
  proof (cases "byteLength_ref d = 0")
    case True
    have "decodeAudioData_st data sr nc st = createBuffer_st nc 1 sr st"
      using Some True by (simp add: decodeAudioData_st_def)
    moreover have "decodeAudioData (map_option (Uint8Array_in st) data) sr nc =
                   createBuffer nc 1 sr"
      using Some True by (simp add: decodeAudioData_def U)
    ultimately show ?thesis
      using decodeAudioData_st_created [of nc 1 sr st]
      by (rule refinement_step [where before = "[]"]) simp
  next
    case ne: False
    define sl where "sl = slice (bytes_at st (buffer_ref d)) 0 (byteLength_ref d - 1)"
    define bufferToUse where
      "bufferToUse = (if byteLength_ref d mod 2 = 0 then bytes_at st (buffer_ref d) else sl)"
    define st1 where
      "st1 = (if byteLength_ref d mod 2 = 0 then st else st @ [ArrayBuffer sl])"
    have pair: "(if byteLength_ref d mod 2 = 0 then (bytes_at st (buffer_ref d), st)
                 else (sl, st @ [ArrayBuffer sl])) = (bufferToUse, st1)"
      by (simp add: bufferToUse_def st1_def)
    define e1 where "e1 = (if byteLength_ref d mod 2 = 0 then [] else [ArrayBuffer sl])"
    have e1: "st1 = st @ e1" by (simp add: st1_def e1_def)
    have run: "decodeAudioData_st data sr nc st =
          (case new_Int16Array bufferToUse (byteOffset_ref d) (byteLength_ref d div 2) of
             Inl e \<Rightarrow> (Inl e, st1)
           | Inr dataInt16 \<Rightarrow>
               if nc = 0 then createBuffer_st 0 0 sr st1
               else
                 (let frameCount = real (length dataInt16) / real nc
                  in case createBuffer_st nc (nat \<lfloor>frameCount\<rfloor>) sr st1 of
                       (Inl e, st2) \<Rightarrow> (Inl e, st2)
                     | (Inr buf, st2) \<Rightarrow>
                         (Inr buf, fill_channels_st dataInt16 frameCount nc 0 buf st2)))"
      by (simp only: decodeAudioData_st_def Some option.case ne if_False sl_def [symmetric]
            pair prod.case)
    have spec: "decodeAudioData (map_option (Uint8Array_in st) data) sr nc =
          (case new_Int16Array bufferToUse (byteOffset_ref d) (byteLength_ref d div 2) of
             Inl e \<Rightarrow> Inl e
           | Inr dataInt16 \<Rightarrow>
               if nc = 0 then createBuffer 0 0 sr
               else
                 (let frameCount = real (length dataInt16) / real nc
                  in case createBuffer nc (nat \<lfloor>frameCount\<rfloor>) sr of
                       Inl e \<Rightarrow> Inl e
                     | Inr buf \<Rightarrow> Inr (fill_channels dataInt16 frameCount nc 0 buf)))"
      unfolding Some option.map decodeAudioData_def option.case U bufferToUse_def sl_def
      using ne by (simp only: if_False Let_def)
    show ?thesis
    proof (cases "new_Int16Array bufferToUse (byteOffset_ref d) (byteLength_ref d div 2)")
      case (Inl e)
      have "decodeAudioData_st data sr nc st = (Inl e, st1)"
        unfolding run Inl by simp
      moreover have "decodeAudioData (map_option (Uint8Array_in st) data) sr nc = Inl e"
        unfolding spec Inl by simp
      moreover have "snd (Inl e :: error + AudioBuffer_ref, st1) = st1 @ []
                     \<and> result_in (Inl e, st1) = Inl e"
        by (simp add: result_in_def)
      ultimately show ?thesis using e1 by (rule refinement_step)
    next
      case (Inr d16)
      show ?thesis
      proof (cases "nc = 0")
        case True
        have "decodeAudioData_st data sr nc st = createBuffer_st 0 0 sr st1"
          unfolding run Inr using True by simp
        moreover have "decodeAudioData (map_option (Uint8Array_in st) data) sr nc =
                       createBuffer 0 0 sr"
          unfolding spec Inr using True by simp
        ultimately show ?thesis
          using decodeAudioData_st_created [of 0 0 sr st1] e1
          by (rule refinement_step)
      next
        case False
        then have nc: "0 < nc" by simp
        let ?fc = "real (length d16) / real nc"
        have "decodeAudioData_st data sr nc st =
              (case createBuffer_st nc (nat \<lfloor>?fc\<rfloor>) sr st1 of
                 (Inl e, st2) \<Rightarrow> (Inl e, st2)
               | (Inr buf, st2) \<Rightarrow> (Inr buf, fill_channels_st d16 ?fc nc 0 buf st2))"
          unfolding run Inr using False by (simp add: Let_def)
        moreover have "decodeAudioData (map_option (Uint8Array_in st) data) sr nc =
              (case createBuffer nc (nat \<lfloor>?fc\<rfloor>) sr of
                 Inl e \<Rightarrow> Inl e
               | Inr buf \<Rightarrow> Inr (fill_channels d16 ?fc nc 0 buf))"
          unfolding spec Inr using False by (simp add: Let_def)
        ultimately show ?thesis
          using decodeAudioData_st_filled
                  [OF nc, where len = "nat \<lfloor>?fc\<rfloor>" and sr = sr and st = st1
                      and d = d16 and fc = ?fc] e1
          by (rule refinement_step)
      qed
    qed
  qed
qed

lemma decodePipeline_st_eq:
  "\<exists>extra. snd (decodePipeline_st base64 sr nc st) = st @ extra
     \<and> result_in (decodePipeline_st base64 sr nc st) = decodePipeline base64 sr nc"
proof (cases "decodeBase64 base64")
  case (Inl e)
  then show ?thesis
    by (simp add: decodePipeline_st_def decodePipeline_def decodeBase64_st_eq result_in_def)
next
  case (Inr u)
  let ?r = "\<lparr>buffer_ref = length st, byteOffset_ref = byteOffset u, byteLength_ref = byteLength u\<rparr>"
  let ?st = "st @ [ArrayBuffer (buffer u)]"
  have u: "Uint8Array_in ?st ?r = u"
    by (simp add: Uint8Array_in_def bytes_at_def)
  obtain extra where
    "snd (decodeAudioData_st (Some ?r) sr nc ?st) = ?st @ extra"
    "result_in (decodeAudioData_st (Some ?r) sr nc ?st) =
       decodeAudioData (map_option (Uint8Array_in ?st) (Some ?r)) sr nc"
    using decodeAudioData_st_eq [of "Some ?r" sr nc ?st] by blast
  then have "snd (decodePipeline_st base64 sr nc st) = st @ ([ArrayBuffer (buffer u)] @ extra)"
    and "result_in (decodePipeline_st base64 sr nc st) = decodePipeline base64 sr nc"
    using Inr u by (simp_all add: decodePipeline_st_def decodePipeline_def decodeBase64_st_eq)
  then show ?thesis by blast
qed

section \<open>The claims\<close>

text \<open>
  C1 as stated fails on the empty byte input: the guard of line 148 returns one
  frame where the floored quotient of the sample count is zero.
\<close>

theorem C1_counterexample:
  "decodeAudioData (Some (Uint8Array_of [])) 24000 1 =
     Inr \<lparr>numberOfChannels = 1, length_frames = 1, sampleRate = 24000,
          getChannelData = [[Num 0]]\<rparr>
   \<and> length ([Num 0] :: number list) \<noteq> length (pcm_samples []) div 1"
  by (simp add: decodeAudioData_empty silent_buffer_def)

text \<open>
  C1, amended. For every byte sequence (in an array of its own at offset 0, as
  \<open>decodeBase64\<close> returns) that holds at least one complete frame, that is at least
  \<open>numChannels\<close> complete 16-bit samples, every sample rate and every channel count
  \<open>numChannels \<ge> 1\<close>, \<open>decodeAudioData\<close> returns a buffer with one array per channel,
  each of length \<open>floor(sampleCount / numChannels)\<close>, and for every frame \<open>i\<close> and
  channel \<open>c\<close> the output sample is the 16-bit sample at interleaved index
  \<open>i * numChannels + c\<close> divided by \<open>32768.0\<close>.
\<close>

theorem C1_deinterleave_full_frame:
  assumes "1 \<le> nc" "nc \<le> length bs div 2"
  shows "\<exists>buf. decodeAudioData (Some (Uint8Array_of bs)) sr nc = Inr buf
           \<and> numberOfChannels buf = nc \<and> sampleRate buf = sr
           \<and> length (pcm_samples bs) = length bs div 2
           \<and> length_frames buf = length (pcm_samples bs) div nc
           \<and> length (getChannelData buf) = nc
           \<and> (\<forall>c < nc. length (getChannelData buf ! c) = length (pcm_samples bs) div nc
                 \<and> (\<forall>i < length (pcm_samples bs) div nc.
                       getChannelData buf ! c ! i =
                         Num (real_of_int (sint (pcm_samples bs ! (i * nc + c))) / 32768)))"
proof -
  have nc: "0 < nc" using assms(1) by simp
  show ?thesis
    using decodeAudioData_fresh [OF nc assms(2), of sr]
    by (simp add: deinterleave_fields deinterleave_channel deinterleave_channel_length
          pcm_samples_length)
qed

theorem C1_deinterleave_full_frame_witness:
  "(1 :: nat) \<le> 2 \<and> 2 \<le> length [1 :: byte, 0, 255, 255, 3, 0, 4, 128] div 2
   \<and> (\<exists>buf. decodeAudioData (Some (Uint8Array_of [1, 0, 255, 255, 3, 0, 4, 128])) 24000 2 = Inr buf
         \<and> numberOfChannels buf = 2 \<and> sampleRate buf = 24000 \<and> length_frames buf = 2
         \<and> getChannelData buf ! 0 ! 0 = Num (1 / 32768)
         \<and> getChannelData buf ! 1 ! 0 = Num (- 1 / 32768)
         \<and> getChannelData buf ! 0 ! 1 = Num (3 / 32768)
         \<and> getChannelData buf ! 1 ! 1 = Num (- 32764 / 32768))"
proof -
  let ?bs = "[1, 0, 255, 255, 3, 0, 4, 128] :: byte list"
  have p: "pcm_samples ?bs = [1, - 1, 3, - 32764]"
    by (simp add: le16_def)
  have h1: "(1 :: nat) \<le> 2" by simp
  have h2: "2 \<le> length ?bs div 2" by simp
  obtain buf where
    r: "decodeAudioData (Some (Uint8Array_of ?bs)) 24000 2 = Inr buf"
    and n: "numberOfChannels buf = 2" and s: "sampleRate buf = 24000"
    and f: "length_frames buf = length (pcm_samples ?bs) div 2"
    and c: "\<forall>c < 2. length (getChannelData buf ! c) = length (pcm_samples ?bs) div 2
                 \<and> (\<forall>i < length (pcm_samples ?bs) div 2.
                       getChannelData buf ! c ! i =
                         Num (real_of_int (sint (pcm_samples ?bs ! (i * 2 + c))) / 32768))"
    using C1_deinterleave_full_frame [OF h1 h2, of 24000] by blast
  have "getChannelData buf ! 0 ! 0 = Num (1 / 32768)"
    using c [rule_format, of 0, THEN conjunct2, rule_format, of 0] unfolding p by simp
  moreover have "getChannelData buf ! 1 ! 0 = Num (- 1 / 32768)"
    using c [rule_format, of 1, THEN conjunct2, rule_format, of 0] unfolding p by simp
  moreover have "getChannelData buf ! 0 ! 1 = Num (3 / 32768)"
    using c [rule_format, of 0, THEN conjunct2, rule_format, of 1] unfolding p by simp
  moreover have "getChannelData buf ! 1 ! 1 = Num (- 32764 / 32768)"
    using c [rule_format, of 1, THEN conjunct2, rule_format, of 1] unfolding p by simp
  moreover have "length_frames buf = 2" using f unfolding p by simp
  ultimately have "\<exists>buf. decodeAudioData (Some (Uint8Array_of ?bs)) 24000 2 = Inr buf
         \<and> numberOfChannels buf = 2 \<and> sampleRate buf = 24000 \<and> length_frames buf = 2
         \<and> getChannelData buf ! 0 ! 0 = Num (1 / 32768)
         \<and> getChannelData buf ! 1 ! 0 = Num (- 1 / 32768)
         \<and> getChannelData buf ! 0 ! 1 = Num (3 / 32768)
         \<and> getChannelData buf ! 1 ! 1 = Num (- 32764 / 32768)"
    using r n s by blast
  then show ?thesis using h1 h2 by (intro conjI)
qed

text \<open>
  C2. For every sample rate and channel count, decoding the empty string, or a
  \<open>null\<close> or \<open>undefined\<close> payload, succeeds with a buffer of exactly one frame per
  channel, every sample \<open>0.0\<close>, at the requested sample rate and channel count.
  The same holds when \<open>decodeAudioData\<close> itself is given \<open>null\<close>.
\<close>

theorem C2_empty_payload_one_silent_frame:
  "decodePipeline None sr nc =
     Inr \<lparr>numberOfChannels = nc, length_frames = 1, sampleRate = sr,
          getChannelData = replicate nc [Num 0]\<rparr>
   \<and> decodePipeline (Some []) sr nc =
     Inr \<lparr>numberOfChannels = nc, length_frames = 1, sampleRate = sr,
          getChannelData = replicate nc [Num 0]\<rparr>
   \<and> decodeAudioData None sr nc =
     Inr \<lparr>numberOfChannels = nc, length_frames = 1, sampleRate = sr,
          getChannelData = replicate nc [Num 0]\<rparr>"
  by (simp add: decodePipeline_def decodeBase64_falsy decodeAudioData_empty
        decodeAudioData_null silent_buffer_def)

text \<open>
  C3. For every byte buffer of odd length \<open>N\<close> returned by \<open>decodeBase64\<close>, the
  buffer that line 151 passes on is the first \<open>N - 1\<close> bytes, the samples are the
  \<open>(N - 1) / 2\<close> pairs of those bytes, and replacing the last byte by any other
  value leaves the outcome of \<open>decodeAudioData\<close> unchanged, at every channel count;
  when the first \<open>N - 1\<close> bytes hold at least one complete frame, the decoded buffer
  is the one built from their samples alone.
\<close>

theorem C3_odd_length_drops_last_byte:
  assumes "odd (length b)"
  shows "slice (buffer (Uint8Array_of b)) 0 (byteLength (Uint8Array_of b) - 1) = take (length b - 1) b
         \<and> new_Int16Array (slice (buffer (Uint8Array_of b)) 0 (byteLength (Uint8Array_of b) - 1))
               (byteOffset (Uint8Array_of b)) (byteLength (Uint8Array_of b) div 2) =
             Inr (pcm_samples (take (length b - 1) b))
         \<and> length (pcm_samples (take (length b - 1) b)) = (length b - 1) div 2
         \<and> decodeAudioData (Some (Uint8Array_of (take (length b - 1) b @ [y]))) sr nc =
             decodeAudioData (Some (Uint8Array_of b)) sr nc
         \<and> (1 \<le> nc \<and> nc \<le> (length b - 1) div 2 \<longrightarrow>
               decodeAudioData (Some (Uint8Array_of b)) sr nc =
                 Inr (deinterleave (pcm_samples (take (length b - 1) b)) nc sr))"
proof -
  have ne: "b \<noteq> []" using assms by auto
  have tk: "take (length b - 1) b = butlast b" by (simp add: butlast_conv_take)
  have ev: "even (length (butlast b))" using assms ne by simp
  have sl: "slice (buffer (Uint8Array_of b)) 0 (byteLength (Uint8Array_of b) - 1) = butlast b"
    by (simp add: Uint8Array_of_def slice_def butlast_conv_take)
  have pb: "pcm_samples (butlast b) = pcm_samples b"
    using assms by (rule pcm_samples_butlast)
  have py: "pcm_samples (butlast b @ [y]) = pcm_samples b"
    using ev pb by (simp add: pcm_samples_snoc)
  have "new_Int16Array (if length b mod 2 = 0 then b else slice b 0 (length b - 1)) 0 (length b div 2)
        = Inr (pcm_samples b)"
    by (rule new_Int16Array_fresh)
  moreover have "length b mod 2 \<noteq> 0" using assms by presburger
  ultimately have ni: "new_Int16Array (slice b 0 (length b - 1)) 0 (length b div 2) = Inr (pcm_samples b)"
    by (simp only: if_False)
  have "new_Int16Array (slice (buffer (Uint8Array_of b)) 0 (byteLength (Uint8Array_of b) - 1))
               (byteOffset (Uint8Array_of b)) (byteLength (Uint8Array_of b) div 2) =
             Inr (pcm_samples (butlast b))"
    unfolding Uint8Array_of_def Uint8Array.simps pb by (rule ni)
  moreover have "length (pcm_samples (butlast b)) = (length b - 1) div 2"
    by (simp add: pcm_samples_length)
  moreover have "decodeAudioData (Some (Uint8Array_of (butlast b @ [y]))) sr nc =
             decodeAudioData (Some (Uint8Array_of b)) sr nc"
  proof (cases "nc = 0")
    case True
    then show ?thesis using ne by (simp add: decodeAudioData_no_channels)
  next
    case False
    then have nc: "0 < nc" by simp
    have y: "butlast b @ [y] \<noteq> []" by simp
    have l: "length (butlast b @ [y]) = length b" using ne by simp
    from decodeAudioData_fresh_view [OF y nc, of sr] decodeAudioData_fresh_view [OF ne nc, of sr]
    show ?thesis by (simp only: py l)
  qed
  moreover have "1 \<le> nc \<and> nc \<le> (length b - 1) div 2 \<longrightarrow>
               decodeAudioData (Some (Uint8Array_of b)) sr nc =
                 Inr (deinterleave (pcm_samples (butlast b)) nc sr)"
  proof
    assume h: "1 \<le> nc \<and> nc \<le> (length b - 1) div 2"
    have "(length b - 1) div 2 \<le> length b div 2" by (rule div_le_mono) simp
    then have "0 < nc" "nc \<le> length b div 2" using h by simp_all
    then show "decodeAudioData (Some (Uint8Array_of b)) sr nc =
                 Inr (deinterleave (pcm_samples (butlast b)) nc sr)"
      using decodeAudioData_fresh [of nc b sr] by (simp add: pb)
  qed
  ultimately show ?thesis
    unfolding tk using sl by blast
qed

theorem C3_odd_length_drops_last_byte_witness:
  "odd (length [1 :: byte, 0, 255])
   \<and> decodeAudioData (Some (Uint8Array_of [1, 0, 7])) 24000 1 =
       decodeAudioData (Some (Uint8Array_of [1, 0, 255])) 24000 1
   \<and> decodeAudioData (Some (Uint8Array_of [1, 0, 255])) 24000 1 =
       Inr \<lparr>numberOfChannels = 1, length_frames = 1, sampleRate = 24000,
            getChannelData = [[Num (1 / 32768)]]\<rparr>"
proof -
  have h: "odd (length [1 :: byte, 0, 255])" by simp
  from C3_odd_length_drops_last_byte [OF h, of 7 24000 1]
  show ?thesis by (simp add: deinterleave_def le16_def)
qed

text \<open>
  C4. Seven raw bytes at two channels hold three 16-bit samples; the decoded buffer
  has exactly one frame, channel 0 holds the first sample and channel 1 the
  second, each divided by \<open>32768.0\<close>. The third sample and the seventh byte occur
  nowhere in the result, whatever the sample rate.
\<close>

theorem C4_seven_bytes_two_channels:
  "pcm_samples [b0, b1, b2, b3, b4, b5, b6] = [le16 b0 b1, le16 b2 b3, le16 b4 b5]
   \<and> decodeAudioData (Some (Uint8Array_of [b0, b1, b2, b3, b4, b5, b6])) sr 2 =
     Inr \<lparr>numberOfChannels = 2, length_frames = 1, sampleRate = sr,
          getChannelData = [[Num (real_of_int (sint (le16 b0 b1)) / 32768)],
                            [Num (real_of_int (sint (le16 b2 b3)) / 32768)]]\<rparr>"
proof -
  have "[0..<2] = [0, Suc 0]" by (simp add: upt_rec)
  then show ?thesis
    using decodeAudioData_fresh [of 2 "[b0, b1, b2, b3, b4, b5, b6]" sr]
    by (simp add: deinterleave_def)
qed

text \<open>
  C5 as stated fails: the space is outside the base64 alphabet, yet \<open>atob\<close> removes
  ASCII whitespace before it decodes, so the string \<open>QUJD\<close> followed by a space
  decodes to the three bytes of \<open>ABC\<close> and a buffer is produced.
\<close>

theorem C5_counterexample:
  "32 \<in> set (js ''QUJD '') \<and> base64_value 32 = None
   \<and> decodeBase64 (Some (js ''QUJD '')) = Inr (Uint8Array_of [65, 66, 67])
   \<and> decodePipeline (Some (js ''QUJD '')) 24000 1 =
       Inr \<lparr>numberOfChannels = 1, length_frames = 1, sampleRate = 24000,
            getChannelData = [[Num (16961 / 32768)]]\<rparr>"
proof -
  have da: "decodeAudioData (Some (Uint8Array_of [65, 66, 67])) 24000 1 =
        Inr \<lparr>numberOfChannels = 1, length_frames = 1, sampleRate = 24000,
            getChannelData = [[Num (16961 / 32768)]]\<rparr>"
    using decodeAudioData_fresh [of 1 "[65, 66, 67]" 24000]
    by (simp add: deinterleave_def le16_def)
  have p: "decodePipeline (Some (js ''QUJD '')) 24000 1 =
           decodeAudioData (Some (Uint8Array_of [65, 66, 67])) 24000 1"
    unfolding decodePipeline_def decodeBase64_whitespace by simp
  have m: "32 \<in> set (js ''QUJD '')" by simp
  have v: "base64_value 32 = None" by (simp add: base64_value_def)
  from m v decodeBase64_whitespace p [unfolded da] show ?thesis by (intro conjI)
qed

text \<open>
  C5, amended. \<open>decodeBase64\<close> raises the decode error exactly for the non-empty
  strings that \<open>atob\<close> rejects: those that, once ASCII whitespace is removed and,
  if the length is then a multiple of four, one or two trailing \<open>=\<close> are removed,
  have a length that leaves remainder one modulo four or still contain a
  character outside \<open>A-Z a-z 0-9 + /\<close>. In particular every string containing a
  character that is neither in the alphabet, nor ASCII whitespace, nor \<open>=\<close> (for
  example \<open>!\<close>) is rejected. When \<open>decodeBase64\<close> raises, the pipeline ends with
  that error and produces no buffer; for every other string the decode succeeds,
  and when the decoded bytes are empty or hold at least one complete frame,
  \<open>decodeAudioData\<close> returns a buffer.
\<close>

theorem C5_decode_error_exactly_when_atob_rejects:
  "(decodeBase64 (Some s) = Inl InvalidCharacterError \<longleftrightarrow>
      s \<noteq> [] \<and>
      (length (strip_padding (filter (\<lambda>c. \<not> ascii_whitespace c) s)) mod 4 = 1
       \<or> (\<exists>c \<in> set (strip_padding (filter (\<lambda>c. \<not> ascii_whitespace c) s)).
             base64_value c = None)))
   \<and> ((\<exists>c \<in> set s. base64_value c = None \<and> \<not> ascii_whitespace c \<and> c \<noteq> 61) \<longrightarrow>
        decodeBase64 (Some s) = Inl InvalidCharacterError)
   \<and> (decodeBase64 (Some s) = Inl InvalidCharacterError \<longrightarrow>
        decodePipeline (Some s) sr nc = Inl InvalidCharacterError)
   \<and> (decodeBase64 (Some s) \<noteq> Inl InvalidCharacterError \<longrightarrow>
        (\<exists>bs. decodeBase64 (Some s) = Inr (Uint8Array_of bs)
           \<and> (bs = [] \<or> (1 \<le> nc \<and> nc \<le> length bs div 2) \<longrightarrow>
                (\<exists>buf. decodePipeline (Some s) sr nc = Inr buf))))"
proof -
  have a: "decodeBase64 (Some s) = Inl InvalidCharacterError \<longleftrightarrow>
      s \<noteq> [] \<and>
      (length (strip_padding (filter (\<lambda>c. \<not> ascii_whitespace c) s)) mod 4 = 1
       \<or> (\<exists>c \<in> set (strip_padding (filter (\<lambda>c. \<not> ascii_whitespace c) s)).
             base64_value c = None))"
    by (simp only: decodeBase64_error_iff forgiving_base64_decode_None)
  have b: "(\<exists>c \<in> set s. base64_value c = None \<and> \<not> ascii_whitespace c \<and> c \<noteq> 61) \<longrightarrow>
        decodeBase64 (Some s) = Inl InvalidCharacterError"
  proof
    assume "\<exists>c \<in> set s. base64_value c = None \<and> \<not> ascii_whitespace c \<and> c \<noteq> 61"
    then obtain c where c: "c \<in> set s" "base64_value c = None" "\<not> ascii_whitespace c" "c \<noteq> 61"
      by blast
    then have "c \<in> set (filter (\<lambda>c. \<not> ascii_whitespace c) s)" by simp
    then have "c \<in> set (strip_padding (filter (\<lambda>c. \<not> ascii_whitespace c) s))"
      using c(4) by (rule strip_padding_keeps)
    moreover have "s \<noteq> []" using c(1) by auto
    ultimately show "decodeBase64 (Some s) = Inl InvalidCharacterError"
      using c(2) a by blast
  qed
  have c: "decodeBase64 (Some s) = Inl InvalidCharacterError \<longrightarrow>
        decodePipeline (Some s) sr nc = Inl InvalidCharacterError"
    by (simp add: decodePipeline_error_iff)
  have d: "decodeBase64 (Some s) \<noteq> Inl InvalidCharacterError \<longrightarrow>
        (\<exists>bs. decodeBase64 (Some s) = Inr (Uint8Array_of bs)
           \<and> (bs = [] \<or> (1 \<le> nc \<and> nc \<le> length bs div 2) \<longrightarrow>
                (\<exists>buf. decodePipeline (Some s) sr nc = Inr buf)))"
  proof
    assume "decodeBase64 (Some s) \<noteq> Inl InvalidCharacterError"
    then obtain bs where bs: "decodeBase64 (Some s) = Inr (Uint8Array_of bs)"
      using decodeBase64_cases [of "Some s"] by blast
    have "bs = [] \<or> (1 \<le> nc \<and> nc \<le> length bs div 2) \<longrightarrow>
            (\<exists>buf. decodePipeline (Some s) sr nc = Inr buf)"
    proof
      assume "bs = [] \<or> (1 \<le> nc \<and> nc \<le> length bs div 2)"
      then have "bs = [] \<or> (0 < nc \<and> nc \<le> length bs div 2)" by auto
      then obtain buf where "decodeAudioData (Some (Uint8Array_of bs)) sr nc = Inr buf"
        using decodeAudioData_fresh_returns by blast
      then have "decodePipeline (Some s) sr nc = Inr buf"
        using bs by (simp add: decodePipeline_def)
      then show "\<exists>buf. decodePipeline (Some s) sr nc = Inr buf" ..
    qed
    then show "\<exists>bs. decodeBase64 (Some s) = Inr (Uint8Array_of bs)
           \<and> (bs = [] \<or> (1 \<le> nc \<and> nc \<le> length bs div 2) \<longrightarrow>
                (\<exists>buf. decodePipeline (Some s) sr nc = Inr buf))"
      using bs by blast
  qed
  from a b c d show ?thesis by (intro conjI)
qed

theorem C5_decode_error_exactly_when_atob_rejects_witness:
  "decodeBase64 (Some (js ''QU!D'')) = Inl InvalidCharacterError
   \<and> decodePipeline (Some (js ''QU!D'')) 24000 1 = Inl InvalidCharacterError
   \<and> (\<exists>bs buf. decodeBase64 (Some (js ''QUJD '')) = Inr (Uint8Array_of bs)
         \<and> decodePipeline (Some (js ''QUJD '')) 24000 1 = Inr buf)"
proof -
  note bad = C5_decode_error_exactly_when_atob_rejects [of "js ''QU!D''" 24000 1]
  note good = C5_decode_error_exactly_when_atob_rejects [of "js ''QUJD ''" 24000 1]
  have "\<exists>c \<in> set (js ''QU!D''). base64_value c = None \<and> \<not> ascii_whitespace c \<and> c \<noteq> 61"
    by (simp add: base64_value_def ascii_whitespace_def)
  then have e: "decodeBase64 (Some (js ''QU!D'')) = Inl InvalidCharacterError"
    using bad [THEN conjunct2, THEN conjunct1] by (rule rev_mp)
  then have p: "decodePipeline (Some (js ''QU!D'')) 24000 1 = Inl InvalidCharacterError"
    using bad [THEN conjunct2, THEN conjunct2, THEN conjunct1] by (rule rev_mp)
  have "decodeBase64 (Some (js ''QUJD '')) \<noteq> Inl InvalidCharacterError"
    unfolding decodeBase64_whitespace by simp
  then have "\<exists>bs. decodeBase64 (Some (js ''QUJD '')) = Inr (Uint8Array_of bs)
         \<and> (bs = [] \<or> ((1 :: nat) \<le> 1 \<and> 1 \<le> length bs div 2) \<longrightarrow>
              (\<exists>buf. decodePipeline (Some (js ''QUJD '')) 24000 1 = Inr buf))"
    using good [THEN conjunct2, THEN conjunct2, THEN conjunct2] by (rule rev_mp)
  then obtain bs where
    bs: "decodeBase64 (Some (js ''QUJD '')) = Inr (Uint8Array_of bs)"
    and r: "bs = [] \<or> ((1 :: nat) \<le> 1 \<and> 1 \<le> length bs div 2) \<longrightarrow>
              (\<exists>buf. decodePipeline (Some (js ''QUJD '')) 24000 1 = Inr buf)"
    by blast
  have "bs = [65, 66, 67]"
    using bs unfolding decodeBase64_whitespace by (simp add: Uint8Array_of_def)
  then have "\<exists>buf. decodePipeline (Some (js ''QUJD '')) 24000 1 = Inr buf"
    using r by simp
  then have g: "\<exists>bs buf. decodeBase64 (Some (js ''QUJD '')) = Inr (Uint8Array_of bs)
         \<and> decodePipeline (Some (js ''QUJD '')) 24000 1 = Inr buf"
    using bs by blast
  from e p g show ?thesis by (intro conjI)
qed

text \<open>
  C6 as stated fails on the empty sequence: its encoding is the empty string, which
  decodes to one silent frame, not to zero frames.
\<close>

theorem C6_counterexample:
  "decodePipeline (Some (base64_encode (le_bytes []))) 24000 1 = Inr (silent_buffer 1 1 24000)
   \<and> length_frames (silent_buffer 1 1 24000) \<noteq> length ([] :: int16 list)"
  by (simp add: decodePipeline_def base64_encode_def le_bytes_def decodeBase64_falsy
        decodeAudioData_empty silent_buffer_def)

text \<open>
  C6, amended. Round trip: for every non-empty sequence \<open>V\<close> of signed 16-bit
  integers, writing \<open>V\<close> as little-endian bytes, base64-encoding them and running
  \<open>decodeBase64\<close> and \<open>decodeAudioData\<close> at channel count 1 gives a buffer whose frame
  count is the length of \<open>V\<close> and whose sample \<open>i\<close> is \<open>V[i] / 32768.0\<close>, exactly and
  hence within \<open>1e-6\<close>.
\<close>

theorem C6_round_trip_nonempty:
  assumes "V \<noteq> []"
  shows "\<exists>buf. decodePipeline (Some (base64_encode (le_bytes V))) sr 1 = Inr buf
           \<and> numberOfChannels buf = 1 \<and> sampleRate buf = sr
           \<and> length_frames buf = length V
           \<and> getChannelData buf = [map (\<lambda>v. Num (real_of_int (sint v) / 32768)) V]
           \<and> (\<forall>i < length V. \<exists>r. getChannelData buf ! 0 ! i = Num r
                 \<and> \<bar>r - real_of_int (sint (V ! i)) / 32768\<bar> \<le> 1 / 1000000)"
proof -
  have ne: "le_bytes V \<noteq> []" using assms by (rule le_bytes_nonempty)
  have "decodePipeline (Some (base64_encode (le_bytes V))) sr 1 =
        Inr (deinterleave V 1 sr)"
    using decodeBase64_encode [OF ne] decodeAudioData_fresh [of 1 "le_bytes V" sr] assms
    by (simp add: decodePipeline_def pcm_samples_le_bytes length_le_bytes Suc_le_eq)
  moreover have "getChannelData (deinterleave V 1 sr) =
                 [map (\<lambda>v. Num (real_of_int (sint v) / 32768)) V]"
  proof -
    have "map (\<lambda>i. Num (real_of_int (sint (V ! i)) / 32768)) [0..<length V] =
          map (\<lambda>v. Num (real_of_int (sint v) / 32768)) V"
      by (rule nth_equalityI) simp_all
    then show ?thesis by (simp add: deinterleave_def)
  qed
  moreover have "\<forall>i < length V. \<exists>r.
        [map (\<lambda>v. Num (real_of_int (sint v) / 32768)) V] ! 0 ! i = Num r
          \<and> \<bar>r - real_of_int (sint (V ! i)) / 32768\<bar> \<le> 1 / 1000000"
  proof (intro allI impI)
    fix i assume "i < length V"
    then have "[map (\<lambda>v. Num (real_of_int (sint v) / 32768)) V] ! 0 ! i =
                 Num (real_of_int (sint (V ! i)) / 32768)
               \<and> \<bar>real_of_int (sint (V ! i)) / 32768 - real_of_int (sint (V ! i)) / 32768\<bar>
                   \<le> 1 / 1000000"
      by simp
    then show "\<exists>r. [map (\<lambda>v. Num (real_of_int (sint v) / 32768)) V] ! 0 ! i = Num r
          \<and> \<bar>r - real_of_int (sint (V ! i)) / 32768\<bar> \<le> 1 / 1000000"
      by (rule exI)
  qed
  ultimately show ?thesis
    by (intro exI [of _ "deinterleave V 1 sr"] conjI) (simp_all only: deinterleave_fields div_by_1)
qed

theorem C6_round_trip_nonempty_witness:
  "[1, - 1] \<noteq> ([] :: int16 list)
   \<and> base64_encode (le_bytes [1, - 1]) = js ''AQD//w==''
   \<and> decodePipeline (Some (js ''AQD//w=='')) 24000 1 =
       Inr \<lparr>numberOfChannels = 1, length_frames = 2, sampleRate = 24000,
            getChannelData = [[Num (1 / 32768), Num (- 1 / 32768)]]\<rparr>"
proof -
  have h: "[1, - 1] \<noteq> ([] :: int16 list)" by simp
  have "le_bytes [1, - 1] = [1, 0, 255, 255]" by code_simp
  moreover have "base64_encode [1, 0, 255, 255] = [65, 81, 68, 47, 47, 119, 61, 61]"
  proof -
    have b1: "map unat [1, 0, 255, 255 :: byte] = [1, 0, 255, 255]" by simp
    have b2: "encode_sextets [1, 0, 255, 255] = [0, 16, 3, 63, 63, 48]" by (simp add: Let_def)
    have b3: "map base64_char [0, 16, 3, 63, 63, 48] = [65, 81, 68, 47, 47, 119]"
      by (simp add: base64_char_def)
    have b4: "replicate ((3 - length [1, 0, 255, 255 :: byte] mod 3) mod 3) 61 = [61, 61 :: nat]"
      by (simp add: numeral_2_eq_2)
    show ?thesis unfolding base64_encode_def b1 b2 b3 b4 by simp
  qed
  moreover have "js ''AQD//w=='' = [65, 81, 68, 47, 47, 119, 61, 61]" by simp
  ultimately have e: "base64_encode (le_bytes [1, - 1]) = js ''AQD//w==''" by (simp only:)
  obtain buf where
    r: "decodePipeline (Some (base64_encode (le_bytes [1, - 1]))) 24000 1 = Inr buf"
    and n: "numberOfChannels buf = 1" and s: "sampleRate buf = 24000"
    and f: "length_frames buf = length [1, - 1 :: int16]"
    and c: "getChannelData buf = [map (\<lambda>v. Num (real_of_int (sint v) / 32768)) [1, - 1 :: int16]]"
    using C6_round_trip_nonempty [OF h, of 24000] by blast
  have "buf = \<lparr>numberOfChannels = 1, length_frames = 2, sampleRate = 24000,
            getChannelData = [[Num (1 / 32768), Num (- 1 / 32768)]]\<rparr>"
    using n s f c by (cases buf) simp
  then show ?thesis using h e r by simp
qed

text \<open>
  C7. The \<open>Int16Array\<close> over the length-normalized buffer holds its consecutive
  pairs of bytes, each read with the first byte as the low half and the second
  as the high half of a two's-complement 16-bit integer, which lies between
  \<open>-32768\<close> and \<open>32767\<close>; every
  sample of every buffer that \<open>decodeAudioData\<close> returns is such an integer divided
  by \<open>32768.0\<close> and lies in the interval from \<open>-1.0\<close> (included) to \<open>1.0\<close>
  (excluded); for a non-empty input each sample of the returned buffer is one of
  the input's samples divided by \<open>32768.0\<close>, and a buffer is returned when the
  input holds at least one complete frame.
\<close>

theorem C7_little_endian_samples_in_range:
  "(\<forall>k < length bs div 2. pcm_samples bs ! k = le16 (bs ! (2 * k)) (bs ! (2 * k + 1)))
   \<and> sint (le16 lo hi) =
       (if uint hi < 128 then uint lo + 256 * uint hi else uint lo + 256 * uint hi - 65536)
   \<and> - 32768 \<le> sint (le16 lo hi) \<and> sint (le16 lo hi) \<le> 32767
   \<and> (decodeAudioData data sr nc = Inr buf \<longrightarrow>
        (\<forall>ch \<in> set (getChannelData buf). \<forall>v \<in> set ch.
           \<exists>w :: int16. v = Num (real_of_int (sint w) / 32768)
             \<and> - 1 \<le> real_of_int (sint w) / 32768 \<and> real_of_int (sint w) / 32768 < 1))
   \<and> (bs \<noteq> [] \<and> decodeAudioData (Some (Uint8Array_of bs)) sr nc = Inr out \<longrightarrow>
        (\<forall>ch \<in> set (getChannelData out). \<forall>v \<in> set ch.
           \<exists>j < length (pcm_samples bs).
             v = Num (real_of_int (sint (pcm_samples bs ! j)) / 32768)))
   \<and> (1 \<le> nc \<and> nc \<le> length bs div 2 \<longrightarrow>
        (\<exists>res. decodeAudioData (Some (Uint8Array_of bs)) sr nc = Inr res))
   \<and> new_Int16Array
         (if length bs mod 2 = 0 then bs else slice bs 0 (length bs - 1)) 0 (length bs div 2) =
       Inr (pcm_samples bs)"
proof -
  have a: "\<forall>k < length bs div 2. pcm_samples bs ! k = le16 (bs ! (2 * k)) (bs ! (2 * k + 1))"
    by (simp add: pcm_samples_nth)
  have b: "sint (le16 lo hi) =
       (if uint hi < 128 then uint lo + 256 * uint hi else uint lo + 256 * uint hi - 65536)"
    by (rule sint_le16)
  have c: "- 32768 \<le> sint (le16 lo hi) \<and> sint (le16 lo hi) \<le> 32767"
    by (rule sint_int16_range)
  have d: "decodeAudioData data sr nc = Inr buf \<longrightarrow>
        (\<forall>ch \<in> set (getChannelData buf). \<forall>v \<in> set ch.
           \<exists>w :: int16. v = Num (real_of_int (sint w) / 32768)
             \<and> - 1 \<le> real_of_int (sint w) / 32768 \<and> real_of_int (sint w) / 32768 < 1)"
    using decodeAudioData_samples sample_in_unit_interval by blast
  have e: "bs \<noteq> [] \<and> decodeAudioData (Some (Uint8Array_of bs)) sr nc = Inr out \<longrightarrow>
        (\<forall>ch \<in> set (getChannelData out). \<forall>v \<in> set ch.
           \<exists>j < length (pcm_samples bs).
             v = Num (real_of_int (sint (pcm_samples bs ! j)) / 32768))"
  proof
    assume h: "bs \<noteq> [] \<and> decodeAudioData (Some (Uint8Array_of bs)) sr nc = Inr out"
    then have ne: "bs \<noteq> []" and r: "decodeAudioData (Some (Uint8Array_of bs)) sr nc = Inr out"
      by simp_all
    have nc: "0 < nc"
    proof (rule ccontr)
      assume "\<not> 0 < nc"
      then have "nc = 0" by simp
      then show False using r decodeAudioData_no_channels [OF ne, of sr] by simp
    qed
    have "out = deinterleave (pcm_samples bs) nc sr"
      using decodeAudioData_fresh_view [OF ne nc, of sr] r by (simp split: if_splits)
    then show "\<forall>ch \<in> set (getChannelData out). \<forall>v \<in> set ch.
           \<exists>j < length (pcm_samples bs).
             v = Num (real_of_int (sint (pcm_samples bs ! j)) / 32768)"
      using deinterleave_samples by blast
  qed
  have g: "1 \<le> nc \<and> nc \<le> length bs div 2 \<longrightarrow>
        (\<exists>res. decodeAudioData (Some (Uint8Array_of bs)) sr nc = Inr res)"
    using decodeAudioData_fresh [of nc bs sr] by simp
  have f: "new_Int16Array
         (if length bs mod 2 = 0 then bs else slice bs 0 (length bs - 1)) 0 (length bs div 2) =
       Inr (pcm_samples bs)"
    by (rule new_Int16Array_fresh)
  from a b c d e g f show ?thesis by (intro conjI) simp_all
qed

theorem C7_little_endian_samples_in_range_witness:
  "pcm_samples [0, 128, 255, 127] ! 0 = le16 0 128
   \<and> sint (le16 0 128) = - 32768
   \<and> decodeAudioData (Some (Uint8Array_of [0, 128, 255, 127])) 24000 1 =
       Inr \<lparr>numberOfChannels = 1, length_frames = 2, sampleRate = 24000,
            getChannelData = [[Num (- 1), Num (32767 / 32768)]]\<rparr>
   \<and> (\<exists>w :: int16. Num (- 1) = Num (real_of_int (sint w) / 32768)
         \<and> - 1 \<le> real_of_int (sint w) / 32768 \<and> real_of_int (sint w) / 32768 < 1)
   \<and> (\<exists>j < length (pcm_samples [0, 128, 255, 127]).
         Num (32767 / 32768) =
           Num (real_of_int (sint (pcm_samples [0, 128, 255, 127] ! j)) / 32768))
   \<and> (\<exists>res. decodeAudioData (Some (Uint8Array_of [0, 128, 255, 127])) 24000 1 = Inr res)"
proof -
  let ?bs = "[0, 128, 255, 127] :: byte list"
  let ?buf = "\<lparr>numberOfChannels = 1, length_frames = 2, sampleRate = 24000,
            getChannelData = [[Num (- 1), Num (32767 / 32768)]]\<rparr>"
  have "[0..<2] = [0, Suc 0]" by (simp add: upt_rec)
  then have r: "decodeAudioData (Some (Uint8Array_of ?bs)) 24000 1 = Inr ?buf"
    using decodeAudioData_fresh [of 1 ?bs 24000] by (simp add: deinterleave_def le16_def)
  have h: "?bs \<noteq> [] \<and> decodeAudioData (Some (Uint8Array_of ?bs)) 24000 1 = Inr ?buf"
    using r by simp
  have h': "(1 :: nat) \<le> 1 \<and> 1 \<le> length ?bs div 2" by simp
  note t = C7_little_endian_samples_in_range
             [of ?bs 0 128 "Some (Uint8Array_of ?bs)" 24000 1 ?buf ?buf]
  have k: "0 < length ?bs div 2" by simp
  have t1: "pcm_samples ?bs ! 0 = le16 0 128"
    using t [THEN conjunct1, rule_format, OF k] by simp
  have t2: "sint (le16 0 128) = - 32768"
    using t [THEN conjunct2, THEN conjunct1] by simp
  have t4: "\<exists>w :: int16. Num (- 1) = Num (real_of_int (sint w) / 32768)
         \<and> - 1 \<le> real_of_int (sint w) / 32768 \<and> real_of_int (sint w) / 32768 < 1"
    using t [THEN conjunct2, THEN conjunct2, THEN conjunct2, THEN conjunct2, THEN conjunct1,
             rule_format, OF r, of "[Num (- 1), Num (32767 / 32768)]" "Num (- 1)"]
    by simp
  have s: "\<forall>ch \<in> set (getChannelData ?buf). \<forall>v \<in> set ch.
                 \<exists>j < length (pcm_samples ?bs).
                   v = Num (real_of_int (sint (pcm_samples ?bs ! j)) / 32768)"
    using t [THEN conjunct2, THEN conjunct2, THEN conjunct2, THEN conjunct2, THEN conjunct2,
             THEN conjunct1] h by (rule mp)
  have t5: "\<exists>j < length (pcm_samples ?bs).
         Num (32767 / 32768) = Num (real_of_int (sint (pcm_samples ?bs ! j)) / 32768)"
    using s [rule_format, of "[Num (- 1), Num (32767 / 32768)]" "Num (32767 / 32768)"] by simp
  have t6: "\<exists>res. decodeAudioData (Some (Uint8Array_of ?bs)) 24000 1 = Inr res"
    using t [THEN conjunct2, THEN conjunct2, THEN conjunct2, THEN conjunct2, THEN conjunct2,
             THEN conjunct2, THEN conjunct1] h' by (rule mp)
  from t1 t2 r t4 t5 t6 show ?thesis by (intro conjI)
qed

text \<open>
  C8. Decoding is deterministic and pure. Started in any two stores with the same
  string, sample rate and channel count, \<open>decodeBase64\<close> followed by
  \<open>decodeAudioData\<close> ends with the same outcome: the same error, or buffers with the
  same frame count, sample rate, channel count and samples, namely those the
  functions on values compute, so the outcome depends on nothing that was in the
  store. Every object that was in the store before the run is in it unchanged
  after the run: the functions store into newly allocated objects only. The same
  holds for \<open>decodeAudioData\<close> alone on any array it is given.
\<close>

theorem C8_deterministic_and_pure:
  "result_in (decodePipeline_st base64 sr nc st) = result_in (decodePipeline_st base64 sr nc st')
   \<and> result_in (decodePipeline_st base64 sr nc st) = decodePipeline base64 sr nc
   \<and> take (length st) (snd (decodePipeline_st base64 sr nc st)) = st
   \<and> length st \<le> length (snd (decodePipeline_st base64 sr nc st))
   \<and> take (length st) (snd (decodeAudioData_st data sr nc st)) = st
   \<and> result_in (decodeAudioData_st data sr nc st) =
       decodeAudioData (map_option (Uint8Array_in st) data) sr nc"
proof -
  obtain e1 where a: "snd (decodePipeline_st base64 sr nc st) = st @ e1"
    and b: "result_in (decodePipeline_st base64 sr nc st) = decodePipeline base64 sr nc"
    using decodePipeline_st_eq [of base64 sr nc st] by blast
  obtain e2 where c: "result_in (decodePipeline_st base64 sr nc st') = decodePipeline base64 sr nc"
    using decodePipeline_st_eq [of base64 sr nc st'] by blast
  obtain e3 where d: "snd (decodeAudioData_st data sr nc st) = st @ e3"
    and e: "result_in (decodeAudioData_st data sr nc st) =
            decodeAudioData (map_option (Uint8Array_in st) data) sr nc"
    using decodeAudioData_st_eq [of data sr nc st] by blast
  show ?thesis using a b c d e by simp
qed

text \<open>
  C9 as stated fails on the empty byte input: the buffer has one frame and the
  sample count is zero.
\<close>

theorem C9_counterexample:
  "decodeAudioData (Some (Uint8Array_of [])) 24000 1 = Inr (silent_buffer 1 1 24000)
   \<and> \<not> length_frames (silent_buffer 1 1 24000) * 1 \<le> length (pcm_samples [])"
  by (simp add: decodeAudioData_empty silent_buffer_def)

text \<open>
  C9, amended. For every byte input (a byte sequence in an array of its own, as
  \<open>decodeBase64\<close> returns) that holds at least one complete frame and every
  channel count \<open>numChannels \<ge> 1\<close>, a buffer is returned and its frame count
  satisfies
  \<open>frameCount * numChannels \<le> sampleCount \<le> frameCount * numChannels + (numChannels - 1)\<close>,
  where \<open>sampleCount\<close>, the number of complete 16-bit samples, is half the byte
  length rounded down.
\<close>

theorem C9_frame_count_bounds:
  assumes "1 \<le> nc" "nc \<le> length bs div 2"
  shows "\<exists>buf. decodeAudioData (Some (Uint8Array_of bs)) sr nc = Inr buf
           \<and> length (pcm_samples bs) = length bs div 2
           \<and> length_frames buf * nc \<le> length (pcm_samples bs)
           \<and> length (pcm_samples bs) \<le> length_frames buf * nc + (nc - 1)"
proof -
  have nc: "0 < nc" using assms(1) by simp
  have "length (pcm_samples bs) mod nc \<le> nc - 1"
    using nc mod_less_divisor [of nc "length (pcm_samples bs)"] by linarith
  then have "length (pcm_samples bs) \<le> length (pcm_samples bs) div nc * nc + (nc - 1)"
    using div_mult_mod_eq [of "length (pcm_samples bs)" nc] by linarith
  then show ?thesis
    using decodeAudioData_fresh [OF nc assms(2), of sr]
    by (simp add: deinterleave_fields pcm_samples_length)
qed

theorem C9_frame_count_bounds_witness:
  "(1 :: nat) \<le> 2 \<and> 2 \<le> length [1 :: byte, 0, 2, 0, 3, 0, 255] div 2
   \<and> (\<exists>buf. decodeAudioData (Some (Uint8Array_of [1, 0, 2, 0, 3, 0, 255])) 24000 2 = Inr buf
         \<and> length (pcm_samples [1, 0, 2, 0, 3, 0, 255]) = 3
         \<and> length_frames buf * 2 \<le> 3 \<and> 3 \<le> length_frames buf * 2 + (2 - 1))"
proof -
  have h1: "(1 :: nat) \<le> 2" by simp
  have h2: "2 \<le> length [1 :: byte, 0, 2, 0, 3, 0, 255] div 2" by simp
  have p: "length (pcm_samples [1 :: byte, 0, 2, 0, 3, 0, 255]) = 3" by simp
  obtain buf where
    "decodeAudioData (Some (Uint8Array_of [1, 0, 2, 0, 3, 0, 255])) 24000 2 = Inr buf"
    "length_frames buf * 2 \<le> 3" "3 \<le> length_frames buf * 2 + (2 - 1)"
    using C9_frame_count_bounds [OF h1 h2, of 24000] unfolding p by blast
  then have "\<exists>buf. decodeAudioData (Some (Uint8Array_of [1, 0, 2, 0, 3, 0, 255])) 24000 2 = Inr buf
         \<and> length (pcm_samples [1, 0, 2, 0, 3, 0, 255]) = 3
         \<and> length_frames buf * 2 \<le> 3 \<and> 3 \<le> length_frames buf * 2 + (2 - 1)"
    using p by blast
  then show ?thesis using h1 h2 by (intro conjI)
qed




end
